theory Spec2Isabelle
  imports Main "HOL-Library.AList" "HOL-Library.Word"
begin

section \<open>Shared types\<close>

text \<open>
  Go's \<^verbatim>\<open>error\<close> values, and the panics of the code, as one datatype. A nil error
  is \<open>None\<close> of \<open>error option\<close>, or the \<open>Inr\<close> side of a result.
\<close>

datatype error =
    Errorf string
  | ConfigurationError string error
  | Wrapped string error
  | Panic string

type_synonym QueryID = string

text \<open>\<^verbatim>\<open>time.Duration\<close> counts nanoseconds; the code only compares durations.\<close>

type_synonym Duration = int

definition Minute :: Duration where
  "Minute = 60 * 1000000000"

section \<open>v2/pb/bytestring.go\<close>

text \<open>
  A Go \<^verbatim>\<open>string\<close> is an immutable sequence of bytes, and so is \<^verbatim>\<open>[]byte\<close>; the
  conversions \<^verbatim>\<open>[]byte(s)\<close> and \<^verbatim>\<open>byteString(data)\<close> copy the bytes unchanged.
  All methods have the pointer receiver \<^verbatim>\<open>*byteString\<close>, which may be nil: a receiver
  is a \<open>byteString option\<close>, with \<open>None\<close> for nil.
\<close>

type_synonym bytes = "8 word list"

type_synonym byteString = "8 word list"

definition Marshal :: "byteString option \<Rightarrow> error + bytes" where
  "Marshal b = (case b of
       None \<Rightarrow> Inl (Errorf ''empty byte string'')
     | Some s \<Rightarrow> Inr s)"

text \<open>
  \<^verbatim>\<open>Unmarshal\<close> assigns through the receiver; the result is the new value of
  \<^verbatim>\<open>*b\<close>. Writing through a nil receiver is a run-time panic.
\<close>

definition Unmarshal :: "byteString option \<Rightarrow> bytes \<Rightarrow> error + byteString" where
  "Unmarshal b data = (case b of
       None \<Rightarrow> Inl (Panic ''nil pointer dereference'')
     | Some _ \<Rightarrow> Inr data)"

definition Equal :: "byteString option \<Rightarrow> byteString option \<Rightarrow> bool" where
  "Equal b other =
     (if b \<noteq> None \<and> other \<noteq> None then the b = the other
      else b = None \<and> other = None)"

section \<open>The query pool, as the behaviour and the broadcast see it\<close>

text \<open>
  The package \<^verbatim>\<open>query\<close> is not among the sources modelled here. Its events and states are the
  types the two callers construct and match on; the pool itself is a state of any type
  \<open>'p\<close> and its method \<^verbatim>\<open>Pool.Advance\<close> is a parameter \<open>adv\<close> of every function
  that calls it. \<open>'k\<close> is the key type, \<open>'n\<close> the node identifier, \<open>'m\<close> the message
  and \<open>'s\<close> the query statistics.
\<close>

datatype ('k, 'n, 'm) PoolEvent =
    EventPoolAddFindCloserQuery QueryID 'k "'n list"
  | EventPoolAddQuery QueryID 'k 'm "'n list"
  | EventPoolStopQuery QueryID
  | EventPoolNodeResponse QueryID 'n "'n list"
  | EventPoolNodeFailure QueryID 'n error
  | EventPoolPoll

datatype ('k, 'n, 'm, 's) PoolState =
    StatePoolFindCloser QueryID 'n 'k
  | StatePoolSendMessage QueryID 'n 'm
  | StatePoolWaitingAtCapacity
  | StatePoolWaitingWithCapacity
  | StatePoolQueryFinished QueryID 's "'n list"
  | StatePoolQueryTimeout QueryID
  | StatePoolIdle

type_synonym ('k, 'n, 'm, 's, 'p) PoolAdvance =
  "'p \<Rightarrow> ('k, 'n, 'm) PoolEvent \<Rightarrow> ('k, 'n, 'm, 's) PoolState \<times> 'p"

text \<open>
  \<^verbatim>\<open>query.PoolConfig\<close>: the five fields \<^verbatim>\<open>NewPooledQueryBehaviour\<close> assigns. Whatever
  else the struct holds is the extension of the record scheme. The field names carry
  the prefix \<open>pc\<close> to keep them apart from those of \<^verbatim>\<open>PooledQueryConfig\<close>.
\<close>

record 'clk PoolConfig =
  pcClock :: "'clk option"
  pcConcurrency :: int
  pcTimeout :: Duration
  pcQueryConcurrency :: int
  pcRequestTimeout :: Duration

section \<open>internal/coord/query.go: configuration\<close>

text \<open>
  Clock, logger and tracer are interface or pointer values: \<open>None\<close> is nil. Go's
  \<^verbatim>\<open>int\<close> and \<^verbatim>\<open>time.Duration\<close> fields are only compared with 1.
\<close>

record ('clk, 'log, 'trc) PooledQueryConfig =
  Clock :: "'clk option"
  Logger :: "'log option"
  Tracer :: "'trc option"
  Concurrency :: int
  Timeout :: Duration
  RequestConcurrency :: int
  RequestTimeout :: Duration

definition Validate :: "('clk, 'log, 'trc) PooledQueryConfig \<Rightarrow> error option" where
  "Validate c =
     (if Clock c = None then
        Some (ConfigurationError ''PooledQueryConfig'' (Errorf ''clock must not be nil''))
      else if Logger c = None then
        Some (ConfigurationError ''PooledQueryConfig'' (Errorf ''logger must not be nil''))
      else if Tracer c = None then
        Some (ConfigurationError ''PooledQueryConfig'' (Errorf ''tracer must not be nil''))
      else if Concurrency c < 1 then
        Some (ConfigurationError ''PooledQueryConfig''
               (Errorf ''query concurrency must be greater than zero''))
      else if Timeout c < 1 then
        Some (ConfigurationError ''PooledQueryConfig''
               (Errorf ''query timeout must be greater than zero''))
      else if RequestConcurrency c < 1 then
        Some (ConfigurationError ''PooledQueryConfig''
               (Errorf ''request concurrency must be greater than zero''))
      else if RequestTimeout c < 1 then
        Some (ConfigurationError ''PooledQueryConfig''
               (Errorf ''request timeout must be greater than zero''))
      else None)"

text \<open>
  What the constructor takes from outside the file: the objects made by
  \<^verbatim>\<open>clock.New()\<close>, \<^verbatim>\<open>tele.DefaultLogger("coord")\<close> and \<^verbatim>\<open>tele.NoopTracer()\<close>, the
  value of \<^verbatim>\<open>query.DefaultPoolConfig()\<close> and the function \<^verbatim>\<open>query.NewPool\<close>.
\<close>

record ('clk, 'log, 'trc, 'z, 'self, 'p) extern =
  clock_New :: 'clk
  DefaultLogger :: 'log
  NoopTracer :: 'trc
  DefaultPoolConfig :: "('clk, 'z) PoolConfig_scheme"
  NewPool :: "'self \<Rightarrow> ('clk, 'z) PoolConfig_scheme \<Rightarrow> error + 'p"

definition DefaultPooledQueryConfig ::
  "('clk, 'log, 'trc, 'z, 'self, 'p) extern \<Rightarrow> ('clk, 'log, 'trc) PooledQueryConfig" where
  "DefaultPooledQueryConfig x =
     \<lparr> Clock = Some (clock_New x),
       Logger = Some (DefaultLogger x),
       Tracer = Some (NoopTracer x),
       Concurrency = 3,
       Timeout = 5 * Minute,
       RequestConcurrency = 3,
       RequestTimeout = Minute \<rparr>"

section \<open>internal/coord/query.go: the behaviour\<close>

text \<open>
  The events of the coordinator, with the fields this file reads or writes. \<open>'w\<close> is
  a handle of a waiter (a \<^verbatim>\<open>NotifyCloser\<close>); the \<^verbatim>\<open>Notify\<close> field of a start event
  may be nil. The \<^verbatim>\<open>Notify: p\<close> field of the two outbound requests is the behaviour
  itself and is left out.
\<close>

datatype ('k, 'n, 'm, 'w, 's) BehaviourEvent =
    EventStartFindCloserQuery QueryID 'k "'n list" "'w option"
  | EventStartMessageQuery QueryID 'k 'm "'n list" "'w option"
  | EventStopQuery QueryID
  | EventGetCloserNodesSuccess QueryID 'n "'n list"
  | EventGetCloserNodesFailure QueryID 'n error
  | EventSendMessageSuccess QueryID 'n 'm "'n list"
  | EventSendMessageFailure QueryID 'n error
  | EventQueryProgressed QueryID 'n "'m option"
  | EventQueryFinished QueryID 's "'n list"
  | EventOutboundGetCloserNodes QueryID 'n 'k
  | EventOutboundSendMessage QueryID 'n 'm
  | EventAddNode 'n
  | EventNotifyNonConnectivity 'n

text \<open>A call on a waiter: \<^verbatim>\<open>waiter.Notify(ctx, ev)\<close> or \<^verbatim>\<open>waiter.Close()\<close>.\<close>

datatype 'e WaiterCall = WaiterNotify 'e | WaiterClose

text \<open>
  The struct, without its two mutexes. \<open>ready\<close> is the one-slot channel: \<open>True\<close> when
  it holds a token. \<open>waiterCalls\<close> is not a field of the struct: it records, in order,
  the calls the behaviour has made on waiters, which are objects of the caller.
\<close>

record ('k, 'n, 'm, 'w, 's, 'p, 'clk, 'log, 'trc) PooledQueryBehaviour =
  cfg :: "('clk, 'log, 'trc) PooledQueryConfig"
  pool :: 'p
  waiters :: "QueryID \<rightharpoonup> 'w"
  pendingOutbound :: "('k, 'n, 'm, 'w, 's) BehaviourEvent list"
  pendingInbound :: "('k, 'n, 'm, 'w, 's) BehaviourEvent list"
  ready :: bool
  waiterCalls :: "('w \<times> ('k, 'n, 'm, 'w, 's) BehaviourEvent WaiterCall) list"

definition qpCfg ::
  "('clk, 'z) PoolConfig_scheme \<Rightarrow> ('clk, 'log, 'trc) PooledQueryConfig \<Rightarrow>
   ('clk, 'z) PoolConfig_scheme" where
  "qpCfg d c = d\<lparr> pcClock := Clock c,
                  pcConcurrency := Concurrency c,
                  pcTimeout := Timeout c,
                  pcQueryConcurrency := RequestConcurrency c,
                  pcRequestTimeout := RequestTimeout c \<rparr>"

definition NewPooledQueryBehaviour ::
  "('clk, 'log, 'trc, 'z, 'self, 'p) extern \<Rightarrow> 'self \<Rightarrow>
   ('clk, 'log, 'trc) PooledQueryConfig option \<Rightarrow>
   error + ('k, 'n, 'm, 'w, 's, 'p, 'clk, 'log, 'trc) PooledQueryBehaviour" where
  "NewPooledQueryBehaviour x self cfg0 =
     (case (case cfg0 of
              None \<Rightarrow> Inr (DefaultPooledQueryConfig x)
            | Some c \<Rightarrow> (case Validate c of Some err \<Rightarrow> Inl err | None \<Rightarrow> Inr c)) of
        Inl err \<Rightarrow> Inl err
      | Inr c \<Rightarrow>
          (case NewPool x self (qpCfg (DefaultPoolConfig x) c) of
             Inl err \<Rightarrow> Inl (Wrapped ''query pool'' err)
           | Inr pl \<Rightarrow>
               Inr \<lparr> cfg = c, pool = pl, waiters = Map.empty, pendingOutbound = [],
                     pendingInbound = [], ready = False, waiterCalls = [] \<rparr>))"

definition Notify ::
  "('k, 'n, 'm, 'w, 's, 'p, 'clk, 'log, 'trc) PooledQueryBehaviour \<Rightarrow>
   ('k, 'n, 'm, 'w, 's) BehaviourEvent \<Rightarrow>
   ('k, 'n, 'm, 'w, 's, 'p, 'clk, 'log, 'trc) PooledQueryBehaviour" where
  "Notify p ev = p\<lparr> pendingInbound := pendingInbound p @ [ev], ready := True \<rparr>"

text \<open>A pair \<^verbatim>\<open>(ev, true)\<close> is \<open>Some ev\<close>, and \<^verbatim>\<open>(nil, false)\<close> is \<open>None\<close>.\<close>

definition nextPendingOutbound ::
  "('k, 'n, 'm, 'w, 's, 'p, 'clk, 'log, 'trc) PooledQueryBehaviour \<Rightarrow>
   ('k, 'n, 'm, 'w, 's) BehaviourEvent option \<times>
   ('k, 'n, 'm, 'w, 's, 'p, 'clk, 'log, 'trc) PooledQueryBehaviour" where
  "nextPendingOutbound p = (case pendingOutbound p of
       [] \<Rightarrow> (None, p)
     | ev # rest \<Rightarrow> (Some ev, p\<lparr> pendingOutbound := rest \<rparr>))"

definition nextPendingInbound ::
  "('k, 'n, 'm, 'w, 's, 'p, 'clk, 'log, 'trc) PooledQueryBehaviour \<Rightarrow>
   ('k, 'n, 'm, 'w, 's) BehaviourEvent option \<times>
   ('k, 'n, 'm, 'w, 's, 'p, 'clk, 'log, 'trc) PooledQueryBehaviour" where
  "nextPendingInbound p = (case pendingInbound p of
       [] \<Rightarrow> (None, p)
     | pev # rest \<Rightarrow> (Some pev, p\<lparr> pendingInbound := rest \<rparr>))"

definition queueAddNodeEvents ::
  "('k, 'n, 'm, 'w, 's, 'p, 'clk, 'log, 'trc) PooledQueryBehaviour \<Rightarrow> 'n list \<Rightarrow>
   ('k, 'n, 'm, 'w, 's, 'p, 'clk, 'log, 'trc) PooledQueryBehaviour" where
  "queueAddNodeEvents p nodes =
     foldl (\<lambda>q info. q\<lparr> pendingOutbound := pendingOutbound q @ [EventAddNode info] \<rparr>) p nodes"

definition queueNonConnectivityEvent ::
  "('k, 'n, 'm, 'w, 's, 'p, 'clk, 'log, 'trc) PooledQueryBehaviour \<Rightarrow> 'n \<Rightarrow>
   ('k, 'n, 'm, 'w, 's, 'p, 'clk, 'log, 'trc) PooledQueryBehaviour" where
  "queueNonConnectivityEvent p nid =
     p\<lparr> pendingOutbound := pendingOutbound p @ [EventNotifyNonConnectivity nid] \<rparr>"

definition callWaiter ::
  "('k, 'n, 'm, 'w, 's, 'p, 'clk, 'log, 'trc) PooledQueryBehaviour \<Rightarrow> 'w \<Rightarrow>
   ('k, 'n, 'm, 'w, 's) BehaviourEvent WaiterCall \<Rightarrow>
   ('k, 'n, 'm, 'w, 's, 'p, 'clk, 'log, 'trc) PooledQueryBehaviour" where
  "callWaiter p w c = p\<lparr> waiterCalls := waiterCalls p @ [(w, c)] \<rparr>"

text \<open>
  \<^verbatim>\<open>advancePool\<close>. The seven cases are all the states the pool has, so the
  \<^verbatim>\<open>default\<close> branch with its panic has no counterpart. The older copy of the file,
  with a single queue of pending events, has the same \<^verbatim>\<open>advancePool\<close>.
\<close>

definition advancePool ::
  "('k, 'n, 'm, 's, 'p) PoolAdvance \<Rightarrow>
   ('k, 'n, 'm, 'w, 's, 'p, 'clk, 'log, 'trc) PooledQueryBehaviour \<Rightarrow>
   ('k, 'n, 'm) PoolEvent \<Rightarrow>
   ('k, 'n, 'm, 'w, 's) BehaviourEvent option \<times>
   ('k, 'n, 'm, 'w, 's, 'p, 'clk, 'log, 'trc) PooledQueryBehaviour" where
  "advancePool adv p0 ev =
     (let (pstate, pl) = adv (pool p0) ev;
          p = p0\<lparr> pool := pl \<rparr>
      in case pstate of
           StatePoolFindCloser qid nid target \<Rightarrow>
             (Some (EventOutboundGetCloserNodes qid nid target), p)
         | StatePoolSendMessage qid nid msg \<Rightarrow>
             (Some (EventOutboundSendMessage qid nid msg), p)
         | StatePoolWaitingAtCapacity \<Rightarrow> (None, p)
         | StatePoolWaitingWithCapacity \<Rightarrow> (None, p)
         | StatePoolQueryFinished qid stats closestNodes \<Rightarrow>
             (case waiters p qid of
                Some waiter \<Rightarrow>
                  (None, callWaiter
                           (callWaiter p waiter
                              (WaiterNotify (EventQueryFinished qid stats closestNodes)))
                           waiter WaiterClose)
              | None \<Rightarrow> (None, p))
         | StatePoolQueryTimeout qid \<Rightarrow> (None, p)
         | StatePoolIdle \<Rightarrow> (None, p))"

text \<open>
  The translation of an inbound event in \<^verbatim>\<open>perfomNextInbound\<close>: the pool event, and
  the behaviour after the side effects of the case. An event of any other type panics.
\<close>

definition registerWaiter ::
  "('k, 'n, 'm, 'w, 's, 'p, 'clk, 'log, 'trc) PooledQueryBehaviour \<Rightarrow> QueryID \<Rightarrow>
   'w option \<Rightarrow> ('k, 'n, 'm, 'w, 's, 'p, 'clk, 'log, 'trc) PooledQueryBehaviour" where
  "registerWaiter p qid ntf = (case ntf of
       None \<Rightarrow> p
     | Some w \<Rightarrow> p\<lparr> waiters := (waiters p)(qid \<mapsto> w) \<rparr>)"

definition notifyProgress ::
  "('k, 'n, 'm, 'w, 's, 'p, 'clk, 'log, 'trc) PooledQueryBehaviour \<Rightarrow> QueryID \<Rightarrow>
   ('k, 'n, 'm, 'w, 's) BehaviourEvent \<Rightarrow>
   ('k, 'n, 'm, 'w, 's, 'p, 'clk, 'log, 'trc) PooledQueryBehaviour" where
  "notifyProgress p qid ev = (case waiters p qid of
       Some waiter \<Rightarrow> callWaiter p waiter (WaiterNotify ev)
     | None \<Rightarrow> p)"

fun translateInbound ::
  "('k, 'n, 'm, 'w, 's, 'p, 'clk, 'log, 'trc) PooledQueryBehaviour \<Rightarrow>
   ('k, 'n, 'm, 'w, 's) BehaviourEvent \<Rightarrow>
   error + (('k, 'n, 'm) PoolEvent \<times>
            ('k, 'n, 'm, 'w, 's, 'p, 'clk, 'log, 'trc) PooledQueryBehaviour)" where
  "translateInbound p (EventStartFindCloserQuery qid target known ntf) =
     Inr (EventPoolAddFindCloserQuery qid target known, registerWaiter p qid ntf)"
| "translateInbound p (EventStartMessageQuery qid target msg known ntf) =
     Inr (EventPoolAddQuery qid target msg known, registerWaiter p qid ntf)"
| "translateInbound p (EventStopQuery qid) = Inr (EventPoolStopQuery qid, p)"
| "translateInbound p (EventGetCloserNodesSuccess qid to closer) =
     Inr (EventPoolNodeResponse qid to closer,
          notifyProgress (queueAddNodeEvents p closer) qid (EventQueryProgressed qid to None))"
| "translateInbound p (EventGetCloserNodesFailure qid to err) =
     Inr (EventPoolNodeFailure qid to err, queueNonConnectivityEvent p to)"
| "translateInbound p (EventSendMessageSuccess qid to resp closer) =
     Inr (EventPoolNodeResponse qid to closer,
          notifyProgress (queueAddNodeEvents p closer) qid
            (EventQueryProgressed qid to (Some resp)))"
| "translateInbound p (EventSendMessageFailure qid to err) =
     Inr (EventPoolNodeFailure qid to err, queueNonConnectivityEvent p to)"
| "translateInbound p _ = Inl (Panic ''unexpected dht event'')"

definition perfomNextInbound ::
  "('k, 'n, 'm, 's, 'p) PoolAdvance \<Rightarrow>
   ('k, 'n, 'm, 'w, 's, 'p, 'clk, 'log, 'trc) PooledQueryBehaviour \<Rightarrow>
   error + (('k, 'n, 'm, 'w, 's) BehaviourEvent option \<times>
            ('k, 'n, 'm, 'w, 's, 'p, 'clk, 'log, 'trc) PooledQueryBehaviour)" where
  "perfomNextInbound adv p0 = (case nextPendingInbound p0 of
       (None, p) \<Rightarrow> Inr (None, p)
     | (Some pev, p) \<Rightarrow> (case translateInbound p pev of
           Inl e \<Rightarrow> Inl e
         | Inr (cmd, p') \<Rightarrow> Inr (advancePool adv p' cmd)))"

definition updateReadyStatus ::
  "('k, 'n, 'm, 'w, 's, 'p, 'clk, 'log, 'trc) PooledQueryBehaviour \<Rightarrow>
   ('k, 'n, 'm, 'w, 's, 'p, 'clk, 'log, 'trc) PooledQueryBehaviour" where
  "updateReadyStatus p =
     (if pendingOutbound p \<noteq> [] then p\<lparr> ready := True \<rparr>
      else if pendingInbound p \<noteq> [] then p\<lparr> ready := True \<rparr>
      else p)"

text \<open>
  \<^verbatim>\<open>Perform\<close>. The deferred \<^verbatim>\<open>updateReadyStatus\<close> runs on every return path.
\<close>

definition Perform ::
  "('k, 'n, 'm, 's, 'p) PoolAdvance \<Rightarrow>
   ('k, 'n, 'm, 'w, 's, 'p, 'clk, 'log, 'trc) PooledQueryBehaviour \<Rightarrow>
   error + (('k, 'n, 'm, 'w, 's) BehaviourEvent option \<times>
            ('k, 'n, 'm, 'w, 's, 'p, 'clk, 'log, 'trc) PooledQueryBehaviour)" where
  "Perform adv p0 = (case nextPendingOutbound p0 of
       (Some ev, p1) \<Rightarrow> Inr (Some ev, updateReadyStatus p1)
     | (None, p1) \<Rightarrow> (case perfomNextInbound adv p1 of
           Inl e \<Rightarrow> Inl e
         | Inr (Some ev, p2) \<Rightarrow> Inr (Some ev, updateReadyStatus p2)
         | Inr (None, p2) \<Rightarrow> (case advancePool adv p2 EventPoolPoll of
               (Some ev, p3) \<Rightarrow> Inr (Some ev, updateReadyStatus p3)
             | (None, p3) \<Rightarrow> (case nextPendingOutbound p3 of
                   (r, p4) \<Rightarrow> Inr (r, updateReadyStatus p4)))))"

section \<open>The pool constructor\<close>

text \<open>
  Modelled from the spec: \<^verbatim>\<open>query.NewPool\<close> and \<^verbatim>\<open>query.DefaultPoolConfig\<close>, which
  \<^verbatim>\<open>NewPooledQueryBehaviour\<close> calls and which are not among the sources here. The
  spec's interface section: ``The pool is constructed with concurrency \<open>\<ge> 1\<close>, timeout
  \<open>\<ge> 1ns\<close>, request concurrency \<open>\<ge> 1\<close>, request timeout \<open>\<ge> 1ns\<close>, clock, logger,
  tracer. Construction fails with a ConfigurationError when any constraint is
  violated.'' \<open>NewPool_accepts\<close> says of the two parameters what the behaviour relies
  on: the pool constructor accepts the default pool configuration once clock,
  concurrency, timeout, request concurrency and request timeout are set to values
  that meet these constraints.
\<close>

definition NewPool_accepts :: "('clk, 'log, 'trc, 'z, 'self, 'p) extern \<Rightarrow> bool" where
  "NewPool_accepts x =
     (\<forall>self clk c t rc rt. 1 \<le> c \<and> 1 \<le> t \<and> 1 \<le> rc \<and> 1 \<le> rt \<longrightarrow>
        (\<exists>pl. NewPool x self
                 (DefaultPoolConfig x\<lparr> pcClock := Some clk, pcConcurrency := c, pcTimeout := t,
                                        pcQueryConcurrency := rc, pcRequestTimeout := rt \<rparr>)
               = Inr pl))"

text \<open>
  Modelled from the spec: one pool constructor that follows the sentence above, with
  the configuration it accepted as the state of the new pool. The defaults are those
  of the spec (``concurrency=3, timeout=5min, request_concurrency=3,
  request_timeout=1min'').
\<close>

definition NewPool_spec :: "unit \<Rightarrow> unit PoolConfig \<Rightarrow> error + unit PoolConfig" where
  "NewPool_spec self c =
     (if pcClock c = None \<or> pcConcurrency c < 1 \<or> pcTimeout c < 1
         \<or> pcQueryConcurrency c < 1 \<or> pcRequestTimeout c < 1
      then Inl (ConfigurationError ''PoolConfig'' (Errorf ''invalid''))
      else Inr c)"

definition extern_spec :: "(unit, unit, unit, unit, unit, unit PoolConfig) extern" where
  "extern_spec =
     \<lparr> clock_New = (), DefaultLogger = (), NoopTracer = (),
       DefaultPoolConfig = \<lparr> pcClock = Some (), pcConcurrency = 3, pcTimeout = 5 * Minute,
                             pcQueryConcurrency = 3, pcRequestTimeout = Minute \<rparr>,
       NewPool = NewPool_spec \<rparr>"

section \<open>Driving the behaviour\<close>

text \<open>
  The four steps of \<^verbatim>\<open>Perform\<close> as the specification words them: ``(1) drain one
  outbound event if queued; else (2) pop one inbound event, translate it to a pool
  event, advance the pool, enqueue resulting outbound events; else (3) advance the
  pool with a Poll event to fire timeouts; else (4) return none'', each step taken
  only when the ones before it do not apply.
\<close>

definition Perform_claimed ::
  "('k, 'n, 'm, 's, 'p) PoolAdvance \<Rightarrow>
   ('k, 'n, 'm, 'w, 's, 'p, 'clk, 'log, 'trc) PooledQueryBehaviour \<Rightarrow>
   error + (('k, 'n, 'm, 'w, 's) BehaviourEvent option \<times>
            ('k, 'n, 'm, 'w, 's, 'p, 'clk, 'log, 'trc) PooledQueryBehaviour)" where
  "Perform_claimed adv p0 =
     (if pendingOutbound p0 \<noteq> [] then
        Inr (Some (hd (pendingOutbound p0)),
             updateReadyStatus (p0\<lparr> pendingOutbound := tl (pendingOutbound p0) \<rparr>))
      else if pendingInbound p0 \<noteq> [] then
        (case perfomNextInbound adv p0 of
           Inl e \<Rightarrow> Inl e
         | Inr (r, p) \<Rightarrow> Inr (r, updateReadyStatus p))
      else
        (case advancePool adv p0 EventPoolPoll of
           (r, p) \<Rightarrow> Inr (r, updateReadyStatus p)))"

text \<open>
  The routing events an inbound event puts on the outbound queue: what the calls of
  \<^verbatim>\<open>queueAddNodeEvents\<close> and \<^verbatim>\<open>queueNonConnectivityEvent\<close> in the cases of
  \<^verbatim>\<open>perfomNextInbound\<close> append.
\<close>

fun sideEvents :: "('k, 'n, 'm, 'w, 's) BehaviourEvent \<Rightarrow> ('k, 'n, 'm, 'w, 's) BehaviourEvent list" where
  "sideEvents (EventGetCloserNodesSuccess qid to closer) = map EventAddNode closer"
| "sideEvents (EventSendMessageSuccess qid to resp closer) = map EventAddNode closer"
| "sideEvents (EventGetCloserNodesFailure qid to err) = [EventNotifyNonConnectivity to]"
| "sideEvents (EventSendMessageFailure qid to err) = [EventNotifyNonConnectivity to]"
| "sideEvents _ = []"

fun isSideEvent :: "('k, 'n, 'm, 'w, 's) BehaviourEvent \<Rightarrow> bool" where
  "isSideEvent (EventAddNode n) = True"
| "isSideEvent (EventNotifyNonConnectivity n) = True"
| "isSideEvent _ = False"

text \<open>
  A caller of the behaviour makes calls of \<^verbatim>\<open>Notify\<close> and \<^verbatim>\<open>Perform\<close> in some order.
  \<open>drive\<close> runs them and collects the events \<^verbatim>\<open>Perform\<close> returns; a panic ends it.
\<close>

datatype ('k, 'n, 'm, 'w, 's) Call = CallNotify "('k, 'n, 'm, 'w, 's) BehaviourEvent" | CallPerform

fun notified :: "('k, 'n, 'm, 'w, 's) Call list \<Rightarrow> ('k, 'n, 'm, 'w, 's) BehaviourEvent list" where
  "notified [] = []"
| "notified (CallNotify ev # cs) = ev # notified cs"
| "notified (CallPerform # cs) = notified cs"

fun drive ::
  "('k, 'n, 'm, 's, 'p) PoolAdvance \<Rightarrow>
   ('k, 'n, 'm, 'w, 's, 'p, 'clk, 'log, 'trc) PooledQueryBehaviour \<Rightarrow>
   ('k, 'n, 'm, 'w, 's) Call list \<Rightarrow>
   error + (('k, 'n, 'm, 'w, 's) BehaviourEvent list \<times>
            ('k, 'n, 'm, 'w, 's, 'p, 'clk, 'log, 'trc) PooledQueryBehaviour)" where
  "drive adv p [] = Inr ([], p)"
| "drive adv p (CallNotify ev # cs) = drive adv (Notify p ev) cs"
| "drive adv p (CallPerform # cs) = (case Perform adv p of
       Inl e \<Rightarrow> Inl e
     | Inr (r, p') \<Rightarrow> (case drive adv p' cs of
           Inl e \<Rightarrow> Inl e
         | Inr (outs, p'') \<Rightarrow> Inr ((case r of None \<Rightarrow> [] | Some ev \<Rightarrow> [ev]) @ outs, p'')))"

text \<open>
  The routing events not yet emitted: those on the outbound queue, then those the
  queued inbound events will put there.
\<close>

definition sideTrace ::
  "('k, 'n, 'm, 'w, 's, 'p, 'clk, 'log, 'trc) PooledQueryBehaviour \<Rightarrow>
   ('k, 'n, 'm, 'w, 's) BehaviourEvent list" where
  "sideTrace p = filter isSideEvent (pendingOutbound p) @ concat (map sideEvents (pendingInbound p))"

text \<open>
  Concrete pools and behaviours for the examples: a pool that is always idle and one
  that reports the time-out of query \<open>q1\<close>; both keep the events they were advanced
  with as their state.
\<close>

definition recordingPool :: "(nat, nat, nat, nat, (nat, nat, nat) PoolEvent list) PoolAdvance" where
  "recordingPool p ev = (StatePoolIdle, p @ [ev])"

definition timeoutPool :: "(nat, nat, nat, nat, (nat, nat, nat) PoolEvent list) PoolAdvance" where
  "timeoutPool p ev = (StatePoolQueryTimeout ''q1'', p @ [ev])"

definition behaviour0 ::
  "(nat, nat, nat, nat, nat, (nat, nat, nat) PoolEvent list, unit, unit, unit) PooledQueryBehaviour" where
  "behaviour0 =
     \<lparr> cfg = \<lparr> Clock = Some (), Logger = Some (), Tracer = Some (), Concurrency = 3,
               Timeout = 5 * Minute, RequestConcurrency = 3, RequestTimeout = Minute \<rparr>,
       pool = [], waiters = Map.empty, pendingOutbound = [], pendingInbound = [],
       ready = False, waiterCalls = [] \<rparr>"

definition behaviour1 ::
  "(nat, nat, nat, nat, nat, (nat, nat, nat) PoolEvent list, unit, unit, unit) PooledQueryBehaviour" where
  "behaviour1 = behaviour0\<lparr> pendingInbound := [EventGetCloserNodesFailure ''q1'' 7 (Errorf ''refused'')] \<rparr>"

definition calls0 :: "(nat, nat, nat, nat, nat) Call list" where
  "calls0 = [CallNotify (EventGetCloserNodesSuccess ''q1'' 1 [2, 3]),
             CallNotify (EventGetCloserNodesFailure ''q1'' 4 (Errorf ''refused'')),
             CallPerform, CallPerform, CallPerform, CallPerform]"

section \<open>The FollowUp broadcast (package brdcst)\<close>

text \<open>
  The events and states of a broadcast that \<^verbatim>\<open>FollowUp\<close> reads and builds.
  \<open>EventBroadcastOther\<close> stands for an event of any other type, which reaches the
  \<^verbatim>\<open>default\<close> branch of \<^verbatim>\<open>handleEvent\<close>.
\<close>

datatype ('k, 'n) BroadcastEvent =
    EventBroadcastPoll
  | EventBroadcastStop
  | EventBroadcastNodeResponse 'n "'n list"
  | EventBroadcastNodeFailure 'n error
  | EventBroadcastStoreRecordSuccess 'n
  | EventBroadcastStoreRecordFailure 'n error
  | EventBroadcastOther

text \<open>
  The four node sets are Go maps from \<^verbatim>\<open>n.String()\<close> to the node (and the error,
  for \<^verbatim>\<open>failed\<close>). A map is an association list with one entry per key, written
  with \<open>AList.update\<close> and \<open>AList.delete\<close>; \<^verbatim>\<open>len(m)\<close> is its length. The method
  \<^verbatim>\<open>String\<close> of the node type is the parameter \<open>str\<close>.
\<close>

type_synonym 'n NodeMap = "(string \<times> 'n) list"

type_synonym 'n FailedMap = "(string \<times> ('n \<times> error)) list"

datatype ('k, 'n, 'm) BroadcastState =
    StateBroadcastFindCloser QueryID 'n 'k
  | StateBroadcastStoreRecord QueryID 'n 'k 'm
  | StateBroadcastWaiting QueryID
  | StateBroadcastFinished QueryID "'n list" "'n FailedMap"
  | StateBroadcastIdle

text \<open>
  The struct. \<open>Target\<close> is \<^verbatim>\<open>cfg.Target\<close>, the only field of the configuration;
  \<open>fpool\<close> is the field \<^verbatim>\<open>pool\<close>, the state of the query pool the broadcast advances
  (the name \<open>pool\<close> is taken by the behaviour above).
\<close>

record ('k, 'n, 'm, 'p) FollowUp =
  queryID :: QueryID
  Target :: 'k
  fpool :: 'p
  started :: bool
  msgFunc :: "'k \<Rightarrow> 'm"
  seed :: "'n list"
  closest :: "'n list"
  todo :: "'n NodeMap"
  waiting :: "'n NodeMap"
  success :: "'n NodeMap"
  failed :: "'n FailedMap"

definition NewFollowUp ::
  "QueryID \<Rightarrow> ('k \<Rightarrow> 'm) \<Rightarrow> 'p \<Rightarrow> 'n list \<Rightarrow> 'k \<Rightarrow> ('k, 'n, 'm, 'p) FollowUp" where
  "NewFollowUp qid mf pl sd target =
     \<lparr> queryID = qid, Target = target, fpool = pl, started = False, msgFunc = mf, seed = sd,
       closest = [], todo = [], waiting = [], success = [], failed = [] \<rparr>"

definition isQueryDone :: "('k, 'n, 'm, 'p) FollowUp \<Rightarrow> bool" where
  "isQueryDone f = (length (closest f) \<noteq> 0)"

text \<open>
  \<^verbatim>\<open>handleEvent\<close>: the pool event the broadcast event maps to (\<open>None\<close> for nil), and
  the state after the case's own updates.
\<close>

fun handleEvent ::
  "('n \<Rightarrow> string) \<Rightarrow> ('k, 'n, 'm, 'p) FollowUp \<Rightarrow> ('k, 'n) BroadcastEvent \<Rightarrow>
   error + (('k, 'n, 'm) PoolEvent option \<times> ('k, 'n, 'm, 'p) FollowUp)" where
  "handleEvent str f EventBroadcastStop =
     (if isQueryDone f then Inr (None, f)
      else Inr (Some (EventPoolStopQuery (queryID f)), f))"
| "handleEvent str f (EventBroadcastNodeResponse nid closer) =
     Inr (Some (EventPoolNodeResponse (queryID f) nid closer), f)"
| "handleEvent str f (EventBroadcastNodeFailure nid err) =
     Inr (Some (EventPoolNodeFailure (queryID f) nid err), f)"
| "handleEvent str f (EventBroadcastStoreRecordSuccess nid) =
     Inr (None, f\<lparr> waiting := AList.delete (str nid) (waiting f),
                    success := AList.update (str nid) nid (success f) \<rparr>)"
| "handleEvent str f (EventBroadcastStoreRecordFailure nid err) =
     Inr (None, f\<lparr> waiting := AList.delete (str nid) (waiting f),
                    failed := AList.update (str nid) (nid, err) (failed f) \<rparr>)"
| "handleEvent str f EventBroadcastPoll =
     (if \<not> started f then
        Inr (Some (EventPoolAddFindCloserQuery (queryID f) (Target f) (seed f)),
             f\<lparr> started := True \<rparr>)
      else Inr (Some EventPoolPoll, f))"
| "handleEvent str f EventBroadcastOther = Inl (Panic ''unexpected event'')"

text \<open>The loop \<^verbatim>\<open>for _, n := range st.ClosestNodes { f.todo[n.String()] = n }\<close>.\<close>

definition fillTodo :: "('n \<Rightarrow> string) \<Rightarrow> 'n NodeMap \<Rightarrow> 'n list \<Rightarrow> 'n NodeMap" where
  "fillTodo str m ns = foldl (\<lambda>m n. AList.update (str n) n m) m ns"

text \<open>
  \<^verbatim>\<open>FollowUp.advancePool\<close> (here \<open>fadvancePool\<close>, as \<open>advancePool\<close> is the
  behaviour's): the state to return when the second result is true, \<open>None\<close>
  otherwise. The pool state \<^verbatim>\<open>StatePoolSendMessage\<close> has no case and panics.
\<close>

definition fadvancePool ::
  "('n \<Rightarrow> string) \<Rightarrow> ('k, 'n, 'm, 's, 'p) PoolAdvance \<Rightarrow> ('k, 'n, 'm, 'p) FollowUp \<Rightarrow>
   ('k, 'n, 'm) PoolEvent \<Rightarrow>
   error + (('k, 'n, 'm) BroadcastState option \<times> ('k, 'n, 'm, 'p) FollowUp)" where
  "fadvancePool str adv f0 ev =
     (let (state, pl) = adv (fpool f0) ev;
          f = f0\<lparr> fpool := pl \<rparr>
      in case state of
           StatePoolFindCloser qid nid target \<Rightarrow>
             Inr (Some (StateBroadcastFindCloser qid nid target), f)
         | StatePoolWaitingAtCapacity \<Rightarrow> Inr (Some (StateBroadcastWaiting (queryID f)), f)
         | StatePoolWaitingWithCapacity \<Rightarrow> Inr (Some (StateBroadcastWaiting (queryID f)), f)
         | StatePoolQueryFinished qid stats closestNodes \<Rightarrow>
             (if length closestNodes = 0 then
                Inr (Some (StateBroadcastFinished (queryID f) [] []), f)
              else
                Inr (None, f\<lparr> closest := closestNodes,
                               todo := fillTodo str (todo f) closestNodes \<rparr>))
         | StatePoolQueryTimeout qid \<Rightarrow>
             Inr (Some (StateBroadcastFinished (queryID f) [] []), f)
         | StatePoolIdle \<Rightarrow> Inr (None, f)
         | StatePoolSendMessage qid nid msg \<Rightarrow> Inl (Panic ''unexpected pool state''))"

text \<open>
  The two loops of the Stop case, \<^verbatim>\<open>for _, n := range m { delete(m, n.String());
  f.failed[n.String()] = {n, cancelled} }\<close>. The first argument is the list of entries
  the range statement visits; an entry that was deleted before the loop reaches it is
  not visited, as Go specifies.
\<close>

fun cancelRange ::
  "('n \<Rightarrow> string) \<Rightarrow> 'n NodeMap \<Rightarrow> 'n NodeMap \<Rightarrow> 'n FailedMap \<Rightarrow> 'n NodeMap \<times> 'n FailedMap" where
  "cancelRange str [] m fl = (m, fl)"
| "cancelRange str ((k, n) # es) m fl =
     (if map_of m k = None then cancelRange str es m fl
      else cancelRange str es (AList.delete (str n) m)
             (AList.update (str n) (n, Errorf ''cancelled'') fl))"

definition cancelAll :: "('n \<Rightarrow> string) \<Rightarrow> ('k, 'n, 'm, 'p) FollowUp \<Rightarrow> ('k, 'n, 'm, 'p) FollowUp" where
  "cancelAll str f =
     (let (td, fl1) = cancelRange str (todo f) (todo f) (failed f);
          (wt, fl2) = cancelRange str (waiting f) (waiting f) fl1
      in f\<lparr> todo := td, waiting := wt, failed := fl2 \<rparr>)"

text \<open>
  The rest of \<^verbatim>\<open>Advance\<close> after the Stop case. Go leaves the order of a range over a
  map open, and the first loop returns from its first iteration: the entry it visits
  is the one at index \<open>i mod length (todo f)\<close>, for a number \<open>i\<close> that the caller of
  the model chooses freely. The \<^verbatim>\<open>StateBroadcastWaiting\<close> built here has no query id.
\<close>

definition advanceStore ::
  "nat \<Rightarrow> bool \<Rightarrow> ('k, 'n, 'm, 'p) FollowUp \<Rightarrow>
   ('k, 'n, 'm) BroadcastState \<times> ('k, 'n, 'm, 'p) FollowUp" where
  "advanceStore i isStopEvent f =
     (if todo f \<noteq> [] then
        (let (k, n) = todo f ! (i mod length (todo f))
         in (StateBroadcastStoreRecord (queryID f) n (Target f) (msgFunc f (Target f)),
             f\<lparr> todo := AList.delete k (todo f), waiting := AList.update k n (waiting f) \<rparr>))
      else if length (waiting f) > 0 then (StateBroadcastWaiting [], f)
      else if isStopEvent \<or> (length (todo f) = 0 \<and> length (closest f) \<noteq> 0) then
        (StateBroadcastFinished (queryID f) (closest f) (failed f), f)
      else (StateBroadcastIdle, f))"

definition Advance ::
  "('n \<Rightarrow> string) \<Rightarrow> ('k, 'n, 'm, 's, 'p) PoolAdvance \<Rightarrow> nat \<Rightarrow> ('k, 'n, 'm, 'p) FollowUp \<Rightarrow>
   ('k, 'n) BroadcastEvent \<Rightarrow>
   error + (('k, 'n, 'm) BroadcastState \<times> ('k, 'n, 'm, 'p) FollowUp)" where
  "Advance str adv i f0 ev =
     (case handleEvent str f0 ev of
        Inl e \<Rightarrow> Inl e
      | Inr (pev, f1) \<Rightarrow>
          (case (case pev of
                   None \<Rightarrow> Inr (None, f1)
                 | Some pe \<Rightarrow> fadvancePool str adv f1 pe) of
             Inl e \<Rightarrow> Inl e
           | Inr (Some state, f2) \<Rightarrow> Inr (state, f2)
           | Inr (None, f2) \<Rightarrow>
               Inr (advanceStore i (ev = EventBroadcastStop)
                      (if ev = EventBroadcastStop then cancelAll str f2 else f2))))"

text \<open>
  A run of the state machine: each step is a choice \<open>i\<close> for the range order and an
  event. The run collects the states returned and ends at a panic.
\<close>

fun runFollowUp ::
  "('n \<Rightarrow> string) \<Rightarrow> ('k, 'n, 'm, 's, 'p) PoolAdvance \<Rightarrow> ('k, 'n, 'm, 'p) FollowUp \<Rightarrow>
   (nat \<times> ('k, 'n) BroadcastEvent) list \<Rightarrow>
   error + (('k, 'n, 'm) BroadcastState list \<times> ('k, 'n, 'm, 'p) FollowUp)" where
  "runFollowUp str adv f [] = Inr ([], f)"
| "runFollowUp str adv f ((i, ev) # evs) = (case Advance str adv i f ev of
       Inl e \<Rightarrow> Inl e
     | Inr (st, f') \<Rightarrow> (case runFollowUp str adv f' evs of
           Inl e \<Rightarrow> Inl e
         | Inr (sts, f'') \<Rightarrow> Inr (st # sts, f'')))"

section \<open>Invariants of the FollowUp broadcast\<close>

text \<open>The keys of a map, and a map whose every key is the string of its node.\<close>

definition keysOf :: "(string \<times> 'a) list \<Rightarrow> string set" where
  "keysOf m = fst ` set m"

definition keyed :: "('n \<Rightarrow> string) \<Rightarrow> 'n NodeMap \<Rightarrow> bool" where
  "keyed str m = (\<forall>(k, n) \<in> set m. k = str n)"

text \<open>
  What holds of \<^verbatim>\<open>todo\<close> and \<^verbatim>\<open>waiting\<close> in every state the machine can reach,
  whatever the events and the pool: they are maps keyed by the node's string, and
  they are empty as long as \<^verbatim>\<open>closest\<close> is.
\<close>

definition basicInv :: "('n \<Rightarrow> string) \<Rightarrow> ('k, 'n, 'm, 'p) FollowUp \<Rightarrow> bool" where
  "basicInv str f =
     (distinct (map fst (todo f)) \<and> distinct (map fst (waiting f))
      \<and> keyed str (todo f) \<and> keyed str (waiting f)
      \<and> (closest f = [] \<longrightarrow> todo f = [] \<and> waiting f = []))"

text \<open>
  A step is well formed when a store result is reported only for a node that is
  waiting for one, and the pool reports a query finished with closest nodes only
  while \<^verbatim>\<open>closest\<close> is still empty, with nodes of distinct strings.
\<close>

definition wfStep ::
  "('n \<Rightarrow> string) \<Rightarrow> ('k, 'n, 'm, 's, 'p) PoolAdvance \<Rightarrow> ('k, 'n, 'm, 'p) FollowUp \<Rightarrow>
   ('k, 'n) BroadcastEvent \<Rightarrow> bool" where
  "wfStep str adv f ev = (case ev of
       EventBroadcastStoreRecordSuccess n \<Rightarrow> str n \<in> keysOf (waiting f)
     | EventBroadcastStoreRecordFailure n e \<Rightarrow> str n \<in> keysOf (waiting f)
     | _ \<Rightarrow> (case handleEvent str f ev of
           Inr (Some pe, f1) \<Rightarrow> (case fst (adv (fpool f1) pe) of
               StatePoolQueryFinished q s cs \<Rightarrow>
                 cs = [] \<or> (closest f = [] \<and> distinct (map str cs))
             | _ \<Rightarrow> True)
         | _ \<Rightarrow> True))"

fun wfRun ::
  "('n \<Rightarrow> string) \<Rightarrow> ('k, 'n, 'm, 's, 'p) PoolAdvance \<Rightarrow> ('k, 'n, 'm, 'p) FollowUp \<Rightarrow>
   (nat \<times> ('k, 'n) BroadcastEvent) list \<Rightarrow> bool" where
  "wfRun str adv f [] = True"
| "wfRun str adv f ((i, ev) # evs) =
     (wfStep str adv f ev \<and>
      (case Advance str adv i f ev of
         Inl e \<Rightarrow> True
       | Inr (st, f') \<Rightarrow> wfRun str adv f' evs))"

text \<open>The nodes of the \<^verbatim>\<open>StateBroadcastStoreRecord\<close> states in a list of states.\<close>

fun storedNodes :: "('k, 'n, 'm) BroadcastState list \<Rightarrow> 'n list" where
  "storedNodes [] = []"
| "storedNodes (StateBroadcastStoreRecord qid n target msg # sts) = n # storedNodes sts"
| "storedNodes (_ # sts) = storedNodes sts"

text \<open>
  The four sets are pairwise disjoint; their union; and the invariant of well-formed
  runs, where \<open>D\<close> lists the nodes a StoreRecord was emitted for so far.
\<close>

definition disjointSets :: "('k, 'n, 'm, 'p) FollowUp \<Rightarrow> bool" where
  "disjointSets f =
     (keysOf (todo f) \<inter> keysOf (waiting f) = {} \<and> keysOf (todo f) \<inter> keysOf (success f) = {}
      \<and> keysOf (todo f) \<inter> keysOf (failed f) = {} \<and> keysOf (waiting f) \<inter> keysOf (success f) = {}
      \<and> keysOf (waiting f) \<inter> keysOf (failed f) = {} \<and> keysOf (success f) \<inter> keysOf (failed f) = {})"

definition unionSets :: "('k, 'n, 'm, 'p) FollowUp \<Rightarrow> string set" where
  "unionSets f =
     keysOf (todo f) \<union> keysOf (waiting f) \<union> keysOf (success f) \<union> keysOf (failed f)"

definition fullInv :: "('n \<Rightarrow> string) \<Rightarrow> ('k, 'n, 'm, 'p) FollowUp \<Rightarrow> 'n list \<Rightarrow> bool" where
  "fullInv str f D =
     (basicInv str f
      \<and> distinct (map fst (success f)) \<and> distinct (map fst (failed f))
      \<and> (\<forall>(k, n) \<in> set (todo f). n \<in> set (closest f))
      \<and> disjointSets f
      \<and> unionSets f = str ` set (closest f)
      \<and> distinct (map str (closest f))
      \<and> distinct (map str D)
      \<and> str ` set D \<subseteq> keysOf (waiting f) \<union> keysOf (success f) \<union> keysOf (failed f)
      \<and> set D \<subseteq> set (closest f))"

text \<open>
  Pools and broadcast states for the examples. Nodes are strings, \<^verbatim>\<open>String\<close> is the
  identity. \<open>twoPool\<close> answers the start of the query with its end at the closest
  nodes X and Y, \<open>emptyPool\<close> with its end at no node; both are idle otherwise and
  count their calls.
\<close>

definition twoPool :: "(nat, string, nat, nat, nat) PoolAdvance" where
  "twoPool p ev = (case ev of
       EventPoolAddFindCloserQuery qid t sd \<Rightarrow> (StatePoolQueryFinished qid 0 [''X'', ''Y''], Suc p)
     | _ \<Rightarrow> (StatePoolIdle, Suc p))"

definition emptyPool :: "(nat, string, nat, nat, nat) PoolAdvance" where
  "emptyPool p ev = (case ev of
       EventPoolAddFindCloserQuery qid t sd \<Rightarrow> (StatePoolQueryFinished qid 0 [], Suc p)
     | _ \<Rightarrow> (StatePoolIdle, Suc p))"

definition followUp0 :: "(nat, string, nat, nat) FollowUp" where
  "followUp0 = NewFollowUp ''b1'' (\<lambda>k. k + 1) 0 [''S''] 9"

definition events0 :: "(nat \<times> (nat, string) BroadcastEvent) list" where
  "events0 = [(0, EventBroadcastPoll), (0, EventBroadcastPoll),
       (0, EventBroadcastStoreRecordSuccess ''X''),
       (0, EventBroadcastStoreRecordFailure ''Y'' (Errorf ''refused'')),
       (0, EventBroadcastPoll)]"

definition followUp1 :: "(nat, string, nat, nat) FollowUp" where
  "followUp1 = followUp0\<lparr> fpool := 3, started := True, closest := [''X'', ''Y''],
      success := [(''X'', ''X'')], failed := [(''Y'', ''Y'', Errorf ''refused'')] \<rparr>"

definition followUp2 :: "(nat, string, nat, nat) FollowUp" where
  "followUp2 = followUp0\<lparr> fpool := 1, started := True, closest := [''X'', ''Y''],
      todo := [(''Y'', ''Y'')], waiting := [(''X'', ''X'')] \<rparr>"

section \<open>Properties of byteString\<close>

text \<open>
  C10. For every non-nil byteString \<open>b\<close>, Marshal returns the bytes of \<open>b\<close> with no
  error, and Unmarshal (into any non-nil receiver \<open>r\<close>) applied to that output yields a
  byteString that Equal reports as equal to \<open>b\<close>. For a nil receiver Marshal returns an
  error, and Equal holds exactly when both operands are nil or both are non-nil with
  identical contents.
\<close>

theorem byteString_roundtrip:
  "Marshal (Some b) = Inr b
   \<and> Unmarshal (Some r) b = Inr b
   \<and> Equal (Some b) (Some b)
   \<and> (\<exists>e. Marshal None = Inl e)
   \<and> Equal x y = ((x = None \<and> y = None) \<or> (\<exists>s. x = Some s \<and> y = Some s))"
  by (cases x; cases y) (auto simp: Marshal_def Unmarshal_def Equal_def)

section \<open>Properties of the configuration\<close>

lemma NewPool_accepts_extern_spec: "NewPool_accepts extern_spec"
  by (simp add: NewPool_accepts_def extern_spec_def NewPool_spec_def)

lemma NewPool_accepts_qpCfg:
  assumes "NewPool_accepts x" and "Clock c = Some clk"
    and "1 \<le> Concurrency c" "1 \<le> Timeout c" "1 \<le> RequestConcurrency c" "1 \<le> RequestTimeout c"
  shows "\<exists>pl. NewPool x self (qpCfg (DefaultPoolConfig x) c) = Inr pl"
  using assms unfolding NewPool_accepts_def qpCfg_def by simp

text \<open>
  C8. Constructing the behaviour with a non-nil configuration fails with a
  ConfigurationError (which carries a component name, here \<open>PooledQueryConfig\<close>, and
  a cause) if and only if some constraint is violated: concurrency below 1, timeout
  below 1ns, request concurrency below 1, request timeout below 1ns, or a nil clock,
  logger or tracer. When all constraints hold, construction succeeds and the
  behaviour holds the configuration. The pool constructor is the parameter
  \<open>NewPool x\<close>, taken to accept what \<open>NewPool_accepts\<close> says.
\<close>

theorem NewPooledQueryBehaviour_validates:
  assumes "NewPool_accepts x"
  shows "((\<exists>comp cause. (NewPooledQueryBehaviour x self (Some c)
              :: error + ('k, 'n, 'm, 'w, 's, 'p, 'clk, 'log, 'trc) PooledQueryBehaviour)
            = Inl (ConfigurationError comp cause))
          = (Concurrency c < 1 \<or> Timeout c < 1 \<or> RequestConcurrency c < 1
             \<or> RequestTimeout c < 1 \<or> Clock c = None \<or> Logger c = None \<or> Tracer c = None))
       \<and> ((\<exists>cause. (NewPooledQueryBehaviour x self (Some c)
              :: error + ('k, 'n, 'm, 'w, 's, 'p, 'clk, 'log, 'trc) PooledQueryBehaviour)
            = Inl (ConfigurationError ''PooledQueryConfig'' cause))
          = (Concurrency c < 1 \<or> Timeout c < 1 \<or> RequestConcurrency c < 1
             \<or> RequestTimeout c < 1 \<or> Clock c = None \<or> Logger c = None \<or> Tracer c = None))
       \<and> ((\<exists>h. (NewPooledQueryBehaviour x self (Some c)
              :: error + ('k, 'n, 'm, 'w, 's, 'p, 'clk, 'log, 'trc) PooledQueryBehaviour)
            = Inr h \<and> cfg h = c)
          = (1 \<le> Concurrency c \<and> 1 \<le> Timeout c \<and> 1 \<le> RequestConcurrency c
             \<and> 1 \<le> RequestTimeout c \<and> Clock c \<noteq> None \<and> Logger c \<noteq> None \<and> Tracer c \<noteq> None))"
proof (cases "Validate c")
  case None
  then have ok: "1 \<le> Concurrency c" "1 \<le> Timeout c" "1 \<le> RequestConcurrency c"
      "1 \<le> RequestTimeout c" "Clock c \<noteq> None" "Logger c \<noteq> None" "Tracer c \<noteq> None"
    by (auto simp: Validate_def split: if_splits)
  from ok(5) obtain clk where clk: "Clock c = Some clk" by auto
  from NewPool_accepts_qpCfg [OF assms clk ok(1-4)] obtain pl where
    "NewPool x self (qpCfg (DefaultPoolConfig x) c) = Inr pl" by blast
  with None ok show ?thesis
    by (auto simp: NewPooledQueryBehaviour_def)
next
  case (Some err)
  then have bad: "Concurrency c < 1 \<or> Timeout c < 1 \<or> RequestConcurrency c < 1
             \<or> RequestTimeout c < 1 \<or> Clock c = None \<or> Logger c = None \<or> Tracer c = None"
    and err: "\<exists>cause. err = ConfigurationError ''PooledQueryConfig'' cause"
    by (auto simp: Validate_def split: if_splits)
  from Some bad err show ?thesis
    by (auto simp: NewPooledQueryBehaviour_def)
qed

text \<open>
  The theorem at two configurations, with the pool constructor of the specification:
  one that meets every constraint with the least values, and one with concurrency 0.
\<close>

theorem NewPooledQueryBehaviour_validates_witness:
  "NewPool_accepts extern_spec \<and>
   (\<exists>h. (NewPooledQueryBehaviour extern_spec ()
           (Some \<lparr> Clock = Some (), Logger = Some (), Tracer = Some (), Concurrency = 1,
                   Timeout = 1, RequestConcurrency = 1, RequestTimeout = 1 \<rparr>)
         :: error + (nat, nat, nat, nat, nat, unit PoolConfig, unit, unit, unit) PooledQueryBehaviour)
        = Inr h) \<and>
   (\<exists>cause. (NewPooledQueryBehaviour extern_spec ()
           (Some \<lparr> Clock = Some (), Logger = Some (), Tracer = Some (), Concurrency = 0,
                   Timeout = 1, RequestConcurrency = 1, RequestTimeout = 1 \<rparr>)
         :: error + (nat, nat, nat, nat, nat, unit PoolConfig, unit, unit, unit) PooledQueryBehaviour)
        = Inl (ConfigurationError ''PooledQueryConfig'' cause))"
  using NewPooledQueryBehaviour_validates [OF NewPool_accepts_extern_spec, of "()"
      "\<lparr> Clock = Some (), Logger = Some (), Tracer = Some (), Concurrency = 1,
                   Timeout = 1, RequestConcurrency = 1, RequestTimeout = 1 \<rparr>",
      where ?'k = nat and ?'n = nat and ?'m = nat and ?'w = nat and ?'s = nat]
    NewPooledQueryBehaviour_validates [OF NewPool_accepts_extern_spec, of "()"
      "\<lparr> Clock = Some (), Logger = Some (), Tracer = Some (), Concurrency = 0,
                   Timeout = 1, RequestConcurrency = 1, RequestTimeout = 1 \<rparr>",
      where ?'k = nat and ?'n = nat and ?'m = nat and ?'w = nat and ?'s = nat]
    NewPool_accepts_extern_spec
  by auto

text \<open>
  C9. \<^verbatim>\<open>NewPooledQueryBehaviour\<close> with a nil configuration does not fail: it takes the
  default configuration (concurrency 3, timeout 5 minutes, request concurrency 3,
  request timeout 1 minute, in nanoseconds below) and returns a behaviour with a nil
  error. The configuration is not validated on this path; the pool constructor is
  again the parameter \<open>NewPool x\<close>.
\<close>

theorem NewPooledQueryBehaviour_nil_config:
  assumes "NewPool_accepts x"
  shows "\<exists>h. (NewPooledQueryBehaviour x self None
              :: error + ('k, 'n, 'm, 'w, 's, 'p, 'clk, 'log, 'trc) PooledQueryBehaviour) = Inr h
           \<and> cfg h = DefaultPooledQueryConfig x
           \<and> Concurrency (cfg h) = 3 \<and> Timeout (cfg h) = 300000000000
           \<and> RequestConcurrency (cfg h) = 3 \<and> RequestTimeout (cfg h) = 60000000000"
proof -
  have "\<exists>pl. NewPool x self (qpCfg (DefaultPoolConfig x) (DefaultPooledQueryConfig x)) = Inr pl"
    by (rule NewPool_accepts_qpCfg [OF assms, where clk = "clock_New x"])
      (simp_all add: DefaultPooledQueryConfig_def Minute_def)
  then obtain pl where
    "NewPool x self (qpCfg (DefaultPoolConfig x) (DefaultPooledQueryConfig x)) = Inr pl" ..
  then show ?thesis
    by (simp add: NewPooledQueryBehaviour_def) (simp add: DefaultPooledQueryConfig_def Minute_def)
qed

text \<open>The theorem with the pool constructor of the specification.\<close>

theorem NewPooledQueryBehaviour_nil_config_witness:
  "NewPool_accepts extern_spec \<and>
   (\<exists>h. (NewPooledQueryBehaviour extern_spec () None
         :: error + (nat, nat, nat, nat, nat, unit PoolConfig, unit, unit, unit) PooledQueryBehaviour)
        = Inr h \<and> Concurrency (cfg h) = 3)"
  using NewPooledQueryBehaviour_nil_config [OF NewPool_accepts_extern_spec, of "()",
      where ?'k = nat and ?'n = nat and ?'m = nat and ?'w = nat and ?'s = nat]
    NewPool_accepts_extern_spec
  by auto

section \<open>Properties of the behaviour\<close>

text \<open>What each operation does to the two queues.\<close>

lemma advancePool_pendingOutbound:
  "advancePool adv p ev = (r, p') \<Longrightarrow> pendingOutbound p' = pendingOutbound p \<and> pendingInbound p' = pendingInbound p"
  by (auto simp: advancePool_def callWaiter_def Let_def split: prod.splits PoolState.splits option.splits)

lemma advancePool_not_side:
  "advancePool adv p ev = (Some e, p') \<Longrightarrow> \<not> isSideEvent e"
  by (auto simp: advancePool_def callWaiter_def Let_def split: prod.splits PoolState.splits option.splits)

lemma queueAddNodeEvents_pendingOutbound:
  "pendingOutbound (queueAddNodeEvents p ns) = pendingOutbound p @ map EventAddNode ns"
  "pendingInbound (queueAddNodeEvents p ns) = pendingInbound p"
  "waiters (queueAddNodeEvents p ns) = waiters p"
  "waiterCalls (queueAddNodeEvents p ns) = waiterCalls p"
  "pool (queueAddNodeEvents p ns) = pool p"
  unfolding queueAddNodeEvents_def
  by (induction ns arbitrary: p) simp_all

lemma notifyProgress_queues:
  "pendingOutbound (notifyProgress p q e) = pendingOutbound p"
  "pendingInbound (notifyProgress p q e) = pendingInbound p"
  by (simp_all add: notifyProgress_def callWaiter_def split: option.splits)

lemma registerWaiter_queues:
  "pendingOutbound (registerWaiter p q w) = pendingOutbound p"
  "pendingInbound (registerWaiter p q w) = pendingInbound p"
  by (simp_all add: registerWaiter_def split: option.splits)

lemma translateInbound_queues:
  "translateInbound p ev = Inr (cmd, p') \<Longrightarrow>
   pendingOutbound p' = pendingOutbound p @ sideEvents ev \<and> pendingInbound p' = pendingInbound p"
  by (cases ev)
     (auto simp: queueAddNodeEvents_pendingOutbound notifyProgress_queues registerWaiter_queues
        queueNonConnectivityEvent_def)

text \<open>
  C1 asks that, when the pool reports \<^verbatim>\<open>StatePoolQueryTimeout\<close>, the behaviour delivers
  a QueryTimeout event to the waiter of that query and then closes the waiter. The
  code's case for this state is empty but for a \<^verbatim>\<open>TODO\<close> comment: whatever waiters
  are registered, \<^verbatim>\<open>advancePool\<close> returns no event, changes nothing but the pool and
  makes no call on any waiter. (The case for \<^verbatim>\<open>StatePoolQueryFinished\<close> just above it,
  \<open>advancePool_finished_notifies\<close>, notifies the waiter and closes it.)
\<close>

theorem advancePool_timeout_silent:
  "adv (pool p) ev = (StatePoolQueryTimeout qid, pl) \<Longrightarrow>
   advancePool adv p ev = (None, p\<lparr> pool := pl \<rparr>)
   \<and> waiterCalls (snd (advancePool adv p ev)) = waiterCalls p"
  by (simp add: advancePool_def)

text \<open>Query \<open>q1\<close> has waiter 5 registered and times out: the waiter hears nothing.\<close>

theorem advancePool_timeout_silent_witness:
  "waiters (behaviour0\<lparr> waiters := [''q1'' \<mapsto> 5] \<rparr>) ''q1'' = Some 5
   \<and> timeoutPool (pool (behaviour0\<lparr> waiters := [''q1'' \<mapsto> 5] \<rparr>)) EventPoolPoll
       = (StatePoolQueryTimeout ''q1'', [EventPoolPoll])
   \<and> fst (advancePool timeoutPool (behaviour0\<lparr> waiters := [''q1'' \<mapsto> 5] \<rparr>) EventPoolPoll) = None
   \<and> waiterCalls (snd (advancePool timeoutPool (behaviour0\<lparr> waiters := [''q1'' \<mapsto> 5] \<rparr>) EventPoolPoll)) = []"
  using advancePool_timeout_silent [of timeoutPool "behaviour0\<lparr> waiters := [''q1'' \<mapsto> 5] \<rparr>"
      EventPoolPoll "''q1''" "[EventPoolPoll]"]
  by (simp add: timeoutPool_def behaviour0_def)

lemma advancePool_finished_notifies:
  "adv (pool p) ev = (StatePoolQueryFinished qid st cs, pl) \<Longrightarrow> waiters p qid = Some w \<Longrightarrow>
   fst (advancePool adv p ev) = None
   \<and> waiterCalls (snd (advancePool adv p ev))
       = waiterCalls p @ [(w, WaiterNotify (EventQueryFinished qid st cs)), (w, WaiterClose)]"
  by (simp add: advancePool_def callWaiter_def)

text \<open>
  C4, amended. Every call of \<^verbatim>\<open>Perform\<close> works in this order. (1) If an outbound event
  is queued, it dequeues and returns that one event, and does nothing else. (2)
  Otherwise, if an inbound event is queued, it pops one and translates it to a pool
  event (an event of an unexpected type panics), advances the pool with it, and
  returns the event the pool yields, if it yields one. (3) Otherwise, whether or not
  an inbound event was processed in step 2, it advances the pool with a Poll event
  and returns the event the pool yields, if it yields one. (4) Otherwise it returns
  the first of the outbound events that step 2 queued, if there is one, and no
  event (nil, false) if there is none; with both queues empty at the start it
  returns no event.
\<close>

theorem Perform_order:
  "(pendingOutbound p = ev # rest \<longrightarrow>
      Perform adv p = Inr (Some ev, updateReadyStatus (p\<lparr> pendingOutbound := rest \<rparr>)))
   \<and> (pendingOutbound p = [] \<and> pendingInbound p = pev # ins
        \<and> translateInbound (p\<lparr> pendingInbound := ins \<rparr>) pev = Inl err \<longrightarrow>
      Perform adv p = Inl err)
   \<and> (pendingOutbound p = [] \<and> pendingInbound p = pev # ins
        \<and> translateInbound (p\<lparr> pendingInbound := ins \<rparr>) pev = Inr (cmd, p1)
        \<and> advancePool adv p1 cmd = (Some out, p2) \<longrightarrow>
      Perform adv p = Inr (Some out, updateReadyStatus p2))
   \<and> (pendingOutbound p = [] \<and> pendingInbound p = pev # ins
        \<and> translateInbound (p\<lparr> pendingInbound := ins \<rparr>) pev = Inr (cmd, p1)
        \<and> advancePool adv p1 cmd = (None, p2)
        \<and> advancePool adv p2 EventPoolPoll = (Some out, p3) \<longrightarrow>
      Perform adv p = Inr (Some out, updateReadyStatus p3))
   \<and> (pendingOutbound p = [] \<and> pendingInbound p = pev # ins
        \<and> translateInbound (p\<lparr> pendingInbound := ins \<rparr>) pev = Inr (cmd, p1)
        \<and> advancePool adv p1 cmd = (None, p2)
        \<and> advancePool adv p2 EventPoolPoll = (None, p3) \<longrightarrow>
      Perform adv p = (case sideEvents pev of
          [] \<Rightarrow> Inr (None, updateReadyStatus p3)
        | s # ss \<Rightarrow> Inr (Some s, updateReadyStatus (p3\<lparr> pendingOutbound := ss \<rparr>))))
   \<and> (pendingOutbound p = [] \<and> pendingInbound p = []
        \<and> advancePool adv p EventPoolPoll = (Some out, p3) \<longrightarrow>
      Perform adv p = Inr (Some out, p3))
   \<and> (pendingOutbound p = [] \<and> pendingInbound p = []
        \<and> advancePool adv p EventPoolPoll = (None, p3) \<longrightarrow>
      Perform adv p = Inr (None, p3))"
proof (intro conjI impI)
  assume "pendingOutbound p = ev # rest"
  then show "Perform adv p = Inr (Some ev, updateReadyStatus (p\<lparr> pendingOutbound := rest \<rparr>))"
    by (simp add: Perform_def nextPendingOutbound_def)
next
  assume "pendingOutbound p = [] \<and> pendingInbound p = pev # ins
        \<and> translateInbound (p\<lparr> pendingInbound := ins \<rparr>) pev = Inl err"
  then show "Perform adv p = Inl err"
    by (simp add: Perform_def nextPendingOutbound_def perfomNextInbound_def nextPendingInbound_def)
next
  assume "pendingOutbound p = [] \<and> pendingInbound p = pev # ins
        \<and> translateInbound (p\<lparr> pendingInbound := ins \<rparr>) pev = Inr (cmd, p1)
        \<and> advancePool adv p1 cmd = (Some out, p2)"
  then show "Perform adv p = Inr (Some out, updateReadyStatus p2)"
    by (simp add: Perform_def nextPendingOutbound_def perfomNextInbound_def nextPendingInbound_def)
next
  assume "pendingOutbound p = [] \<and> pendingInbound p = pev # ins
        \<and> translateInbound (p\<lparr> pendingInbound := ins \<rparr>) pev = Inr (cmd, p1)
        \<and> advancePool adv p1 cmd = (None, p2)
        \<and> advancePool adv p2 EventPoolPoll = (Some out, p3)"
  then show "Perform adv p = Inr (Some out, updateReadyStatus p3)"
    by (simp add: Perform_def nextPendingOutbound_def perfomNextInbound_def nextPendingInbound_def)
next
  assume a: "pendingOutbound p = [] \<and> pendingInbound p = pev # ins
        \<and> translateInbound (p\<lparr> pendingInbound := ins \<rparr>) pev = Inr (cmd, p1)
        \<and> advancePool adv p1 cmd = (None, p2)
        \<and> advancePool adv p2 EventPoolPoll = (None, p3)"
  then have "pendingOutbound p1 = sideEvents pev"
    using translateInbound_queues [of "p\<lparr> pendingInbound := ins \<rparr>" pev cmd p1] by simp
  with a have "pendingOutbound p3 = sideEvents pev"
    using advancePool_pendingOutbound [of adv p1 cmd None p2]
      advancePool_pendingOutbound [of adv p2 EventPoolPoll None p3] by simp
  with a show "Perform adv p = (case sideEvents pev of
          [] \<Rightarrow> Inr (None, updateReadyStatus p3)
        | s # ss \<Rightarrow> Inr (Some s, updateReadyStatus (p3\<lparr> pendingOutbound := ss \<rparr>)))"
    by (simp add: Perform_def nextPendingOutbound_def perfomNextInbound_def nextPendingInbound_def
        split: list.splits)
next
  assume a: "pendingOutbound p = [] \<and> pendingInbound p = []
        \<and> advancePool adv p EventPoolPoll = (Some out, p3)"
  then have "pendingOutbound p3 = [] \<and> pendingInbound p3 = []"
    using advancePool_pendingOutbound [of adv p EventPoolPoll "Some out" p3] by simp
  with a show "Perform adv p = Inr (Some out, p3)"
    by (simp add: Perform_def nextPendingOutbound_def perfomNextInbound_def nextPendingInbound_def
        updateReadyStatus_def)
next
  assume a: "pendingOutbound p = [] \<and> pendingInbound p = []
        \<and> advancePool adv p EventPoolPoll = (None, p3)"
  then have "pendingOutbound p3 = [] \<and> pendingInbound p3 = []"
    using advancePool_pendingOutbound [of adv p EventPoolPoll None p3] by simp
  with a show "Perform adv p = Inr (None, p3)"
    by (simp add: Perform_def nextPendingOutbound_def perfomNextInbound_def nextPendingInbound_def
        updateReadyStatus_def)
qed

text \<open>
  C4 as stated fails. With nothing outbound and one failure response inbound, and a
  pool that stays idle, \<^verbatim>\<open>Perform\<close> advances the pool twice (with the node failure,
  then with a Poll) and returns the NotifyNonConnectivity event that step 2 queued.
  By the four exclusive steps of the claim it would advance the pool once and return
  no event; and read as a chain in which each step runs when the one before returned
  nothing, the claim's last step would still return no event.
\<close>

theorem Perform_claimed_counterexample:
  "pendingOutbound behaviour1 = []
   \<and> pendingInbound behaviour1 = [EventGetCloserNodesFailure ''q1'' 7 (Errorf ''refused'')]
   \<and> (\<exists>p'. Perform recordingPool behaviour1 = Inr (Some (EventNotifyNonConnectivity 7), p')
          \<and> pool p' = [EventPoolNodeFailure ''q1'' 7 (Errorf ''refused''), EventPoolPoll])
   \<and> (\<exists>p'. Perform_claimed recordingPool behaviour1 = Inr (None, p')
          \<and> pool p' = [EventPoolNodeFailure ''q1'' 7 (Errorf ''refused'')])
   \<and> Perform recordingPool behaviour1 \<noteq> Perform_claimed recordingPool behaviour1"
  by (simp add: Perform_def Perform_claimed_def behaviour1_def behaviour0_def recordingPool_def
      nextPendingOutbound_def perfomNextInbound_def nextPendingInbound_def advancePool_def
      queueNonConnectivityEvent_def updateReadyStatus_def)

text \<open>The theorem at three behaviours: one for step 1, one for steps 2 to 4, one idle.\<close>

theorem Perform_order_witness:
  "Perform recordingPool (behaviour0\<lparr> pendingOutbound := [EventAddNode 1, EventAddNode 2] \<rparr>)
     = Inr (Some (EventAddNode 1),
            behaviour0\<lparr> pendingOutbound := [EventAddNode 2], ready := True \<rparr>)
   \<and> (\<exists>p'. Perform recordingPool behaviour1 = Inr (Some (EventNotifyNonConnectivity 7), p'))
   \<and> Perform recordingPool behaviour0 = Inr (None, behaviour0\<lparr> pool := [EventPoolPoll] \<rparr>)"
proof -
  have 1: "pendingOutbound (behaviour0\<lparr> pendingOutbound := [EventAddNode 1, EventAddNode 2] \<rparr>)
            = EventAddNode 1 # [EventAddNode 2]" by simp
  have 2: "pendingOutbound behaviour1 = [] \<and>
     pendingInbound behaviour1 = EventGetCloserNodesFailure ''q1'' 7 (Errorf ''refused'') # [] \<and>
     translateInbound (behaviour1\<lparr>pendingInbound := []\<rparr>)
        (EventGetCloserNodesFailure ''q1'' 7 (Errorf ''refused'')) =
       Inr (EventPoolNodeFailure ''q1'' 7 (Errorf ''refused''),
            behaviour0\<lparr> pendingOutbound := [EventNotifyNonConnectivity 7] \<rparr>) \<and>
     advancePool recordingPool (behaviour0\<lparr> pendingOutbound := [EventNotifyNonConnectivity 7] \<rparr>)
        (EventPoolNodeFailure ''q1'' 7 (Errorf ''refused''))
       = (None, behaviour0\<lparr> pendingOutbound := [EventNotifyNonConnectivity 7],
                  pool := [EventPoolNodeFailure ''q1'' 7 (Errorf ''refused'')] \<rparr>) \<and>
     advancePool recordingPool (behaviour0\<lparr> pendingOutbound := [EventNotifyNonConnectivity 7],
                  pool := [EventPoolNodeFailure ''q1'' 7 (Errorf ''refused'')] \<rparr>) EventPoolPoll
       = (None, behaviour0\<lparr> pendingOutbound := [EventNotifyNonConnectivity 7],
                  pool := [EventPoolNodeFailure ''q1'' 7 (Errorf ''refused''), EventPoolPoll] \<rparr>)"
    by (simp add: behaviour1_def behaviour0_def queueNonConnectivityEvent_def advancePool_def
        recordingPool_def)
  have 3: "pendingOutbound behaviour0 = [] \<and> pendingInbound behaviour0 = [] \<and>
     advancePool recordingPool behaviour0 EventPoolPoll = (None, behaviour0\<lparr> pool := [EventPoolPoll] \<rparr>)"
    by (simp add: behaviour0_def advancePool_def recordingPool_def)
  from Perform_order [of "behaviour0\<lparr> pendingOutbound := [EventAddNode 1, EventAddNode 2] \<rparr>"
      "EventAddNode 1" "[EventAddNode 2]" recordingPool]
    Perform_order [of behaviour1 _ _ recordingPool
      "EventGetCloserNodesFailure ''q1'' 7 (Errorf ''refused'')" "[]" _
      "EventPoolNodeFailure ''q1'' 7 (Errorf ''refused'')"
      "behaviour0\<lparr> pendingOutbound := [EventNotifyNonConnectivity 7] \<rparr>" _
      "behaviour0\<lparr> pendingOutbound := [EventNotifyNonConnectivity 7],
                  pool := [EventPoolNodeFailure ''q1'' 7 (Errorf ''refused'')] \<rparr>"
      "behaviour0\<lparr> pendingOutbound := [EventNotifyNonConnectivity 7],
                  pool := [EventPoolNodeFailure ''q1'' 7 (Errorf ''refused''), EventPoolPoll] \<rparr>"]
    Perform_order [of behaviour0 _ _ recordingPool _ _ _ _ _ _ _ "behaviour0\<lparr> pool := [EventPoolPoll] \<rparr>"]
    1 2 3
  show ?thesis
    by (simp add: updateReadyStatus_def)
qed

text \<open>
  \<^verbatim>\<open>Perform\<close> takes routing events from the front of \<open>sideTrace\<close> and \<^verbatim>\<open>Notify\<close> adds
  to its end.
\<close>

lemma isSideEvent_sideEvents: "filter isSideEvent (sideEvents ev) = sideEvents ev"
  by (cases ev) (simp_all add: filter_map comp_def)

lemma updateReadyStatus_queues:
  "pendingOutbound (updateReadyStatus p) = pendingOutbound p"
  "pendingInbound (updateReadyStatus p) = pendingInbound p"
  by (simp_all add: updateReadyStatus_def)

lemma perfomNextInbound_sideTrace:
  assumes "perfomNextInbound adv p = Inr (r, p')"
  shows "filter isSideEvent (case r of None \<Rightarrow> [] | Some e \<Rightarrow> [e]) = [] \<and> sideTrace p' = sideTrace p"
proof (cases "pendingInbound p")
  case Nil
  with assms show ?thesis
    by (simp add: perfomNextInbound_def nextPendingInbound_def)
next
  case (Cons pev ins)
  with assms obtain cmd p1 where
    tr: "translateInbound (p\<lparr> pendingInbound := ins \<rparr>) pev = Inr (cmd, p1)"
    and ad: "advancePool adv p1 cmd = (r, p')"
    by (auto simp: perfomNextInbound_def nextPendingInbound_def split: sum.splits)
  from translateInbound_queues [OF tr] advancePool_pendingOutbound [OF ad] Cons
  have "sideTrace p' = sideTrace p"
    by (simp add: sideTrace_def isSideEvent_sideEvents)
  moreover have "filter isSideEvent (case r of None \<Rightarrow> [] | Some e \<Rightarrow> [e]) = []"
    using advancePool_not_side [of adv p1 cmd _ p'] ad by (cases r) auto
  ultimately show ?thesis by simp
qed

lemma nextPendingOutbound_sideTrace:
  "nextPendingOutbound p = (r, p') \<Longrightarrow>
   filter isSideEvent (case r of None \<Rightarrow> [] | Some e \<Rightarrow> [e]) @ sideTrace p' = sideTrace p"
  by (cases "pendingOutbound p") (auto simp: nextPendingOutbound_def sideTrace_def)

lemma sideTrace_updateReadyStatus: "sideTrace (updateReadyStatus p) = sideTrace p"
  by (simp add: sideTrace_def updateReadyStatus_queues)

lemma sideTrace_advancePool: "advancePool adv p ev = (r, p') \<Longrightarrow> sideTrace p' = sideTrace p"
  by (simp add: sideTrace_def advancePool_pendingOutbound)

lemma Perform_sideTrace:
  assumes "Perform adv p = Inr (r, p')"
  shows "filter isSideEvent (case r of None \<Rightarrow> [] | Some e \<Rightarrow> [e]) @ sideTrace p' = sideTrace p"
proof -
  obtain r1 p1 where npo: "nextPendingOutbound p = (r1, p1)" by force
  note st1 = nextPendingOutbound_sideTrace [OF npo]
  show ?thesis
  proof (cases r1)
    case (Some ev)
    with assms npo st1 show ?thesis
      by (auto simp: Perform_def sideTrace_updateReadyStatus)
  next
    case None
    with assms npo obtain r2 p2 where inb: "perfomNextInbound adv p1 = Inr (r2, p2)"
      by (auto simp: Perform_def split: sum.splits)
    note st2 = perfomNextInbound_sideTrace [OF inb]
    show ?thesis
    proof (cases r2)
      case (Some ev)
      with assms npo None inb st1 st2 show ?thesis
        by (auto simp: Perform_def sideTrace_updateReadyStatus)
    next
      case None2: None
      obtain r3 p3 where poll: "advancePool adv p2 EventPoolPoll = (r3, p3)" by force
      note st3 = sideTrace_advancePool [OF poll]
      show ?thesis
      proof (cases r3)
        case (Some ev)
        with poll have "\<not> isSideEvent ev" by (auto dest: advancePool_not_side)
        with assms npo None inb None2 poll Some st1 st2 st3 show ?thesis
          by (auto simp: Perform_def sideTrace_updateReadyStatus)
      next
        case None3: None
        obtain r4 p4 where npo4: "nextPendingOutbound p3 = (r4, p4)" by force
        note st4 = nextPendingOutbound_sideTrace [OF npo4]
        from assms npo None inb None2 poll None3 npo4
        have "r = r4" "p' = updateReadyStatus p4"
          by (auto simp: Perform_def)
        with None st1 st2 st3 st4 show ?thesis
          by (simp add: sideTrace_updateReadyStatus)
      qed
    qed
  qed
qed

lemma drive_sideTrace:
  "drive adv p cs = Inr (outs, p') \<Longrightarrow>
   filter isSideEvent outs @ sideTrace p' = sideTrace p @ concat (map sideEvents (notified cs))"
proof (induction cs arbitrary: p outs)
  case Nil
  then show ?case by simp
next
  case (Cons c cs)
  show ?case
  proof (cases c)
    case (CallNotify ev)
    with Cons.prems have "drive adv (Notify p ev) cs = Inr (outs, p')" by simp
    from Cons.IH [OF this] CallNotify show ?thesis
      by (simp add: sideTrace_def Notify_def)
  next
    case CallPerform
    with Cons.prems obtain r p1 outs1 where
      pf: "Perform adv p = Inr (r, p1)" and dr: "drive adv p1 cs = Inr (outs1, p')"
      and outs: "outs = (case r of None \<Rightarrow> [] | Some ev \<Rightarrow> [ev]) @ outs1"
      by (auto split: sum.splits)
    from Cons.IH [OF dr] Perform_sideTrace [OF pf] outs CallPerform show ?thesis
      by (metis append.assoc filter_append notified.simps(3))
  qed
qed

text \<open>
  C7. For every inbound event the behaviour processes, a successful response
  (\<^verbatim>\<open>EventGetCloserNodesSuccess\<close> or \<^verbatim>\<open>EventSendMessageSuccess\<close>) queues one AddNode
  outbound event per closer peer it carries, and a failure
  (\<^verbatim>\<open>EventGetCloserNodesFailure\<close> or \<^verbatim>\<open>EventSendMessageFailure\<close>) queues one
  NotifyNonConnectivity outbound event. Over any sequence of \<^verbatim>\<open>Notify\<close> and
  \<^verbatim>\<open>Perform\<close> calls on a behaviour that starts with empty queues, the AddNode and
  NotifyNonConnectivity events that \<^verbatim>\<open>Perform\<close> has returned, followed by those still
  queued and those of the inbound events still queued, are the events of all
  notified inbound events, in the order of notification.
\<close>

theorem side_events_queued_in_order:
  "(pendingInbound p = EventGetCloserNodesSuccess qid to closer # ins \<longrightarrow>
      (\<exists>r p'. perfomNextInbound adv p = Inr (r, p')
         \<and> pendingOutbound p' = pendingOutbound p @ map EventAddNode closer))
   \<and> (pendingInbound p = EventSendMessageSuccess qid to resp closer # ins \<longrightarrow>
      (\<exists>r p'. perfomNextInbound adv p = Inr (r, p')
         \<and> pendingOutbound p' = pendingOutbound p @ map EventAddNode closer))
   \<and> (pendingInbound p = EventGetCloserNodesFailure qid to err # ins \<longrightarrow>
      (\<exists>r p'. perfomNextInbound adv p = Inr (r, p')
         \<and> pendingOutbound p' = pendingOutbound p @ [EventNotifyNonConnectivity to]))
   \<and> (pendingInbound p = EventSendMessageFailure qid to err # ins \<longrightarrow>
      (\<exists>r p'. perfomNextInbound adv p = Inr (r, p')
         \<and> pendingOutbound p' = pendingOutbound p @ [EventNotifyNonConnectivity to]))
   \<and> (pendingOutbound p = [] \<and> pendingInbound p = [] \<and> drive adv p cs = Inr (outs, p') \<longrightarrow>
      filter isSideEvent outs @ filter isSideEvent (pendingOutbound p')
        @ concat (map sideEvents (pendingInbound p'))
      = concat (map sideEvents (notified cs)))"
proof -
  have q: "\<exists>r p'. perfomNextInbound adv p = Inr (r, p')
         \<and> pendingOutbound p' = pendingOutbound p @ sideEvents ev"
    if a: "pendingInbound p = ev # ins"
      and tr: "translateInbound (p\<lparr> pendingInbound := ins \<rparr>) ev = Inr (cmd, p1)"
    for ev ins cmd p1
  proof -
    obtain r p' where ad: "advancePool adv p1 cmd = (r, p')" by force
    from a tr ad have "perfomNextInbound adv p = Inr (r, p')"
      by (simp add: perfomNextInbound_def nextPendingInbound_def)
    with translateInbound_queues [OF tr] advancePool_pendingOutbound [OF ad]
    show ?thesis by simp
  qed
  have d: "pendingOutbound p = [] \<and> pendingInbound p = [] \<and> drive adv p cs = Inr (outs, p') \<longrightarrow>
      filter isSideEvent outs @ filter isSideEvent (pendingOutbound p')
        @ concat (map sideEvents (pendingInbound p'))
      = concat (map sideEvents (notified cs))"
    using drive_sideTrace [of adv p cs outs p'] by (simp add: sideTrace_def)
  from q [of "EventGetCloserNodesSuccess qid to closer" ins]
    q [of "EventSendMessageSuccess qid to resp closer" ins]
    q [of "EventGetCloserNodesFailure qid to err" ins]
    q [of "EventSendMessageFailure qid to err" ins] d
  show ?thesis
    by simp
qed

text \<open>
  Two responses are notified, then \<^verbatim>\<open>Perform\<close> is called four times: the two AddNode
  events of the first response come out before the NotifyNonConnectivity of the
  second.
\<close>

lemma drive_calls0:
  "map_sum id fst (drive recordingPool behaviour0 calls0)
     = Inr [EventAddNode 2, EventAddNode 3, EventNotifyNonConnectivity 4]"
  by (simp add: calls0_def behaviour0_def recordingPool_def Notify_def Perform_def
      nextPendingOutbound_def perfomNextInbound_def nextPendingInbound_def advancePool_def
      queueAddNodeEvents_def notifyProgress_def queueNonConnectivityEvent_def
      updateReadyStatus_def)

theorem side_events_queued_in_order_witness:
  "pendingOutbound behaviour0 = [] \<and> pendingInbound behaviour0 = []
   \<and> map_sum id fst (drive recordingPool behaviour0 calls0)
       = Inr [EventAddNode 2, EventAddNode 3, EventNotifyNonConnectivity 4]
   \<and> concat (map sideEvents (notified calls0))
       = [EventAddNode 2, EventAddNode 3, EventNotifyNonConnectivity 4]
   \<and> (\<exists>r p'. perfomNextInbound recordingPool
                (behaviour0\<lparr> pendingInbound := [EventGetCloserNodesSuccess ''q1'' 1 [2, 3]] \<rparr>)
              = Inr (r, p') \<and> pendingOutbound p' = [EventAddNode 2, EventAddNode 3])"
proof -
  have q: "pendingOutbound behaviour0 = [] \<and> pendingInbound behaviour0 = []"
    by (simp add: behaviour0_def)
  have n: "concat (map sideEvents (notified calls0))
       = [EventAddNode 2, EventAddNode 3, EventNotifyNonConnectivity 4]"
    by (simp add: calls0_def)
  obtain outs p' where d: "drive recordingPool behaviour0 calls0 = Inr (outs, p')"
    and o: "outs = [EventAddNode 2, EventAddNode 3, EventNotifyNonConnectivity 4]"
    using drive_calls0 by (cases "drive recordingPool behaviour0 calls0") auto
  have i: "pendingInbound (behaviour0\<lparr> pendingInbound := [EventGetCloserNodesSuccess ''q1'' 1 [2, 3]] \<rparr>)
      = EventGetCloserNodesSuccess ''q1'' 1 [2, 3] # []" by simp
  from side_events_queued_in_order [of
      "behaviour0\<lparr> pendingInbound := [EventGetCloserNodesSuccess ''q1'' 1 [2, 3]] \<rparr>"
      "''q1''" 1 "[2, 3]" "[]" recordingPool] i
    side_events_queued_in_order [of behaviour0 _ _ _ _ recordingPool _ _ calls0 outs p'] q d o n
    drive_calls0
  show ?thesis
    by (simp add: behaviour0_def)
qed

section \<open>Properties of the FollowUp broadcast\<close>

text \<open>Keys and entries of a map under \<open>AList.update\<close> and \<open>AList.delete\<close>.\<close>

lemma keysOf_simps [simp]:
  "keysOf [] = {}"
  "keysOf (AList.update k v m) = insert k (keysOf m)"
  "keysOf (AList.delete k m) = keysOf m - {k}"
  by (auto simp: keysOf_def AList.dom_update AList.delete_eq)

lemma keysOf_Cons: "keysOf (e # m) = insert (fst e) (keysOf m)"
  by (simp add: keysOf_def)

lemma keysOf_empty_iff [simp]: "keysOf m = {} \<longleftrightarrow> m = []"
  by (simp add: keysOf_def)

lemma set_delete: "set (AList.delete k m) = {e \<in> set m. fst e \<noteq> k}"
  by (auto simp: AList.delete_eq)

lemma set_update_subset: "set (AList.update k v m) \<subseteq> insert (k, v) (set m)"
  by (induction m) auto

lemma keyed_simps [simp]: "keyed str []"
  by (simp add: keyed_def)

lemma keyed_delete: "keyed str m \<Longrightarrow> keyed str (AList.delete k m)"
  by (auto simp: keyed_def set_delete)

lemma keyed_update: "keyed str m \<Longrightarrow> k = str n \<Longrightarrow> keyed str (AList.update k n m)"
  using set_update_subset [of k n m] by (auto simp: keyed_def)

lemma fillTodo_props:
  "keysOf (fillTodo str m ns) = keysOf m \<union> str ` set ns"
  "distinct (map fst m) \<Longrightarrow> distinct (map fst (fillTodo str m ns))"
  "keyed str m \<Longrightarrow> keyed str (fillTodo str m ns)"
  "set (fillTodo str m ns) \<subseteq> set m \<union> (\<lambda>n. (str n, n)) ` set ns"
  unfolding fillTodo_def
proof (induction ns arbitrary: m)
  case Nil
  { case 1 show ?case by simp }
  { case 2 then show ?case by simp }
  { case 3 then show ?case by simp }
  { case 4 show ?case by simp }
next
  case (Cons n ns)
  { case 1 show ?case using Cons.IH(1) [of "AList.update (str n) n m"] by auto }
  { case 2 then show ?case using Cons.IH(2) [of "AList.update (str n) n m"]
      by (simp add: AList.distinct_update) }
  { case 3 then show ?case using Cons.IH(3) [of "AList.update (str n) n m"]
      by (simp add: keyed_update) }
  { case 4 show ?case using Cons.IH(4) [of "AList.update (str n) n m"]
      set_update_subset [of "str n" n m] by auto }
qed

text \<open>
  The cancel loop over a map keyed by the node's string: it empties the map it
  ranges over, and every entry it visits ends in the failed map as cancelled.
\<close>

lemma cancelRange_fst:
  "keyed str es \<Longrightarrow> fst (cancelRange str es m fl) = filter (\<lambda>e. fst e \<notin> keysOf es) m"
proof (induction es arbitrary: m fl)
  case Nil
  then show ?case by (simp add: keysOf_def)
next
  case (Cons e es)
  obtain k n where e: "e = (k, n)" by (cases e)
  from Cons.prems e have kn: "k = str n" and ks: "keyed str es" by (auto simp: keyed_def)
  show ?case
  proof (cases "map_of m k")
    case None
    then have "k \<notin> fst ` set m" by (simp add: map_of_eq_None_iff)
    then have "filter (\<lambda>e. fst e \<notin> keysOf ((k, n) # es)) m = filter (\<lambda>e. fst e \<notin> keysOf es) m"
      by (intro filter_cong) (auto simp: keysOf_def)
    with None e Cons.IH [OF ks] show ?thesis by simp
  next
    case (Some v)
    have "filter (\<lambda>e. fst e \<notin> keysOf es) (AList.delete k m)
          = filter (\<lambda>e. fst e \<notin> keysOf ((k, n) # es)) m"
      by (auto simp: AList.delete_eq keysOf_def intro!: filter_cong)
    with Some e kn Cons.IH [OF ks] show ?thesis by simp
  qed
qed

lemma cancelRange_self: "keyed str m \<Longrightarrow> fst (cancelRange str m m fl) = []"
  by (simp add: cancelRange_fst keysOf_def)

lemma cancelRange_snd_map:
  "keyed str es \<Longrightarrow> distinct (map fst es) \<Longrightarrow> keysOf es \<subseteq> keysOf m \<Longrightarrow>
   map_of (snd (cancelRange str es m fl)) k =
     (case map_of es k of Some n \<Rightarrow> Some (n, Errorf ''cancelled'') | None \<Rightarrow> map_of fl k)"
proof (induction es arbitrary: m fl)
  case Nil
  then show ?case by simp
next
  case (Cons e es)
  obtain k0 n0 where e: "e = (k0, n0)" by (cases e)
  from Cons.prems e have kn: "k0 = str n0" and ks: "keyed str es"
    and d: "distinct (map fst es)" and nk: "k0 \<notin> fst ` set es"
    and km: "k0 \<in> keysOf m" and sub: "keysOf es \<subseteq> keysOf m"
    by (auto simp: keyed_def keysOf_def)
  from km have some: "map_of m k0 \<noteq> None" by (simp add: map_of_eq_None_iff keysOf_def)
  from nk have "k0 \<notin> keysOf es" by (simp add: keysOf_def)
  with sub have sub': "keysOf es \<subseteq> keysOf (AList.delete k0 m)" by auto
  from nk have none: "map_of es k0 = None" by (simp add: map_of_eq_None_iff)
  from some e kn Cons.IH [OF ks d sub', of "AList.update k0 (n0, Errorf ''cancelled'') fl"] none
  show ?case
    by (auto simp: AList.update_conv' split: option.splits)
qed

lemma cancelRange_snd_keys:
  "keyed str es \<Longrightarrow> distinct (map fst es) \<Longrightarrow> keysOf es \<subseteq> keysOf m \<Longrightarrow>
   keysOf (snd (cancelRange str es m fl)) = keysOf fl \<union> keysOf es"
proof (induction es arbitrary: m fl)
  case Nil
  then show ?case by simp
next
  case (Cons e es)
  obtain k0 n0 where e: "e = (k0, n0)" by (cases e)
  from Cons.prems e have kn: "k0 = str n0" and ks: "keyed str es"
    and d: "distinct (map fst es)" and nk: "k0 \<notin> fst ` set es"
    and km: "k0 \<in> keysOf m" and sub: "keysOf es \<subseteq> keysOf m"
    by (auto simp: keyed_def keysOf_def)
  from km have some: "map_of m k0 \<noteq> None" by (simp add: map_of_eq_None_iff keysOf_def)
  from nk have "k0 \<notin> keysOf es" by (simp add: keysOf_def)
  with sub have sub': "keysOf es \<subseteq> keysOf (AList.delete k0 m)" by auto
  from some obtain v where "map_of m k0 = Some v" by auto
  with e kn have step: "cancelRange str (e # es) m fl
      = cancelRange str es (AList.delete k0 m) (AList.update k0 (n0, Errorf ''cancelled'') fl)"
    by simp
  have "keysOf (e # es) = insert k0 (keysOf es)" by (simp add: keysOf_Cons e)
  with Cons.IH [OF ks d sub', of "AList.update k0 (n0, Errorf ''cancelled'') fl"]
  show ?case
    unfolding step by simp
qed

lemma cancelRange_snd_distinct:
  "distinct (map fst fl) \<Longrightarrow> distinct (map fst (snd (cancelRange str es m fl)))"
  by (induction es arbitrary: m fl) (auto simp: AList.distinct_update)

lemma cancelRange_snd_keyed:
  "(\<forall>(k, n, e) \<in> set fl. k = str n) \<Longrightarrow>
   (\<forall>(k, n, e) \<in> set (snd (cancelRange str es m fl)). k = str n)"
proof (induction es arbitrary: m fl)
  case Nil
  then show ?case by simp
next
  case (Cons e es)
  obtain k0 n0 where e: "e = (k0, n0)" by (cases e)
  have "\<forall>(k, n, e) \<in> set (AList.update (str n0) (n0, Errorf ''cancelled'') fl). k = str n"
    using Cons.prems set_update_subset [of "str n0" "(n0, Errorf ''cancelled'')" fl] by auto
  with Cons e show ?case by simp
qed

text \<open>Every part of \<^verbatim>\<open>Advance\<close> keeps the basic invariant, for any event and pool.\<close>

lemma basicInv_NewFollowUp: "basicInv str (NewFollowUp qid mf pl sd target)"
  by (simp add: basicInv_def NewFollowUp_def)

lemma handleEvent_fields:
  assumes "handleEvent str f ev = Inr (pev, f1)"
  shows "closest f1 = closest f" "todo f1 = todo f" "queryID f1 = queryID f"
    "Target f1 = Target f" "msgFunc f1 = msgFunc f"
    "waiting f1 = waiting f \<or> (\<exists>k. waiting f1 = AList.delete k (waiting f))"
  using assms by (cases ev; auto split: if_splits)+

lemma basicInv_handleEvent:
  assumes "basicInv str f" and "handleEvent str f ev = Inr (pev, f1)"
  shows "basicInv str f1"
proof -
  note h = handleEvent_fields [OF assms(2)]
  from h(6) assms(1) have "distinct (map fst (waiting f1)) \<and> keyed str (waiting f1)
      \<and> (waiting f = [] \<longrightarrow> waiting f1 = [])"
    by (auto simp: basicInv_def AList.distinct_delete keyed_delete)
  with assms(1) h(1,2) show ?thesis by (simp add: basicInv_def)
qed

lemma fadvancePool_fields:
  assumes "fadvancePool str adv f pe = Inr (r, f2)"
  shows "queryID f2 = queryID f" "Target f2 = Target f" "msgFunc f2 = msgFunc f"
    "waiting f2 = waiting f" "success f2 = success f" "failed f2 = failed f"
    "(closest f2 = closest f \<and> todo f2 = todo f)
     \<or> (\<exists>q s cs. fst (adv (fpool f) pe) = StatePoolQueryFinished q s cs \<and> cs \<noteq> [] \<and> r = None
          \<and> closest f2 = cs \<and> todo f2 = fillTodo str (todo f) cs)"
  using assms
  by (auto simp: fadvancePool_def Let_def split: prod.splits PoolState.splits if_splits)

lemma basicInv_fadvancePool:
  assumes "basicInv str f" and "fadvancePool str adv f pe = Inr (r, f2)"
  shows "basicInv str f2"
proof -
  note h = fadvancePool_fields [OF assms(2)]
  from h(7) show ?thesis
  proof
    assume "closest f2 = closest f \<and> todo f2 = todo f"
    with assms(1) h(4) show ?thesis by (simp add: basicInv_def)
  next
    assume "\<exists>q s cs. fst (adv (fpool f) pe) = StatePoolQueryFinished q s cs \<and> cs \<noteq> [] \<and> r = None
          \<and> closest f2 = cs \<and> todo f2 = fillTodo str (todo f) cs"
    then obtain cs where "cs \<noteq> []" "closest f2 = cs" "todo f2 = fillTodo str (todo f) cs"
      by blast
    with assms(1) h(4) show ?thesis
      by (simp add: basicInv_def fillTodo_props)
  qed
qed

lemma cancelAll_fields:
  "queryID (cancelAll str f) = queryID f" "closest (cancelAll str f) = closest f"
  "success (cancelAll str f) = success f" "fpool (cancelAll str f) = fpool f"
  by (simp_all add: cancelAll_def split: prod.splits)

lemma cancelAll_empty:
  assumes "keyed str (todo f)" "keyed str (waiting f)"
  shows "todo (cancelAll str f) = []" "waiting (cancelAll str f) = []"
  using cancelRange_self [OF assms(1), of "failed f"]
    cancelRange_self [OF assms(2), of "snd (cancelRange str (todo f) (todo f) (failed f))"]
  by (auto simp: cancelAll_def split: prod.splits)

lemma cancelAll_failed:
  "failed (cancelAll str f) =
     snd (cancelRange str (waiting f) (waiting f)
            (snd (cancelRange str (todo f) (todo f) (failed f))))"
  by (simp add: cancelAll_def split: prod.splits)

lemma basicInv_cancelAll: "basicInv str f \<Longrightarrow> basicInv str (cancelAll str f)"
  by (simp add: basicInv_def cancelAll_empty)

lemma nth_mod_mem: "xs \<noteq> [] \<Longrightarrow> xs ! (i mod length xs) \<in> set xs"
  by simp

lemma advanceStore_cases:
  assumes "advanceStore i b f = (st, f')"
  shows "(\<exists>k n. (k, n) \<in> set (todo f)
            \<and> st = StateBroadcastStoreRecord (queryID f) n (Target f) (msgFunc f (Target f))
            \<and> f' = f\<lparr> todo := AList.delete k (todo f), waiting := AList.update k n (waiting f) \<rparr>)
         \<or> (todo f = [] \<and> f' = f \<and>
             (if waiting f \<noteq> [] then st = StateBroadcastWaiting []
              else if b \<or> closest f \<noteq> [] then
                st = StateBroadcastFinished (queryID f) (closest f) (failed f)
              else st = StateBroadcastIdle))"
proof (cases "todo f = []")
  case True
  with assms show ?thesis by (auto simp: advanceStore_def split: if_splits)
next
  case False
  obtain k n where kn: "todo f ! (i mod length (todo f)) = (k, n)" by force
  with nth_mod_mem [OF False, of i] have "(k, n) \<in> set (todo f)" by simp
  with False kn assms show ?thesis by (auto simp: advanceStore_def)
qed

lemma basicInv_advanceStore:
  assumes "basicInv str f" and "advanceStore i b f = (st, f')"
  shows "basicInv str f'"
  using advanceStore_cases [OF assms(2)]
proof (elim disjE exE conjE)
  fix k n assume kn: "(k, n) \<in> set (todo f)"
    and f': "f' = f\<lparr> todo := AList.delete k (todo f), waiting := AList.update k n (waiting f) \<rparr>"
  from kn assms(1) have "k = str n" "closest f \<noteq> []" by (auto simp: basicInv_def keyed_def)
  with assms(1) f' show ?thesis
    by (simp add: basicInv_def AList.distinct_delete AList.distinct_update keyed_delete keyed_update)
next
  assume "f' = f"
  with assms(1) show ?thesis by simp
qed

lemma Advance_cases:
  assumes "Advance str adv i f ev = Inr (st, f')"
  obtains (pool) pe f1 where "handleEvent str f ev = Inr (Some pe, f1)"
      "fadvancePool str adv f1 pe = Inr (Some st, f')"
  | (store) pev f1 f2 where "handleEvent str f ev = Inr (pev, f1)"
      "case pev of None \<Rightarrow> f2 = f1 | Some pe \<Rightarrow> fadvancePool str adv f1 pe = Inr (None, f2)"
      "advanceStore i (ev = EventBroadcastStop)
         (if ev = EventBroadcastStop then cancelAll str f2 else f2) = (st, f')"
  using assms
  by (auto simp: Advance_def split: sum.splits prod.splits option.splits if_splits)

lemma basicInv_Advance:
  assumes "basicInv str f" and "Advance str adv i f ev = Inr (st, f')"
  shows "basicInv str f'"
  using assms(2)
proof (cases rule: Advance_cases)
  case (pool pe f1)
  with assms(1) show ?thesis
    by (blast intro: basicInv_handleEvent basicInv_fadvancePool)
next
  case (store pev f1 f2)
  from assms(1) store(1) have b1: "basicInv str f1" by (rule basicInv_handleEvent)
  from store(2) b1 have "basicInv str f2"
    by (cases pev) (auto intro: basicInv_fadvancePool)
  then have "basicInv str (if ev = EventBroadcastStop then cancelAll str f2 else f2)"
    by (simp add: basicInv_cancelAll)
  with store(3) show ?thesis by (blast intro: basicInv_advanceStore)
qed

lemma basicInv_runFollowUp:
  "basicInv str f \<Longrightarrow> runFollowUp str adv f evs = Inr (sts, f') \<Longrightarrow> basicInv str f'"
proof (induction evs arbitrary: f sts)
  case Nil
  then show ?case by simp
next
  case (Cons e evs)
  obtain i ev where e: "e = (i, ev)" by (cases e)
  with Cons.prems(2) obtain st f1 sts1 where
    a: "Advance str adv i f ev = Inr (st, f1)" and r: "runFollowUp str adv f1 evs = Inr (sts1, f')"
    by (auto split: sum.splits)
  from Cons.IH [OF basicInv_Advance [OF Cons.prems(1) a] r] show ?case .
qed

lemma handleEvent_Stop:
  "handleEvent str f EventBroadcastStop = Inr (pev, f1) \<Longrightarrow>
   f1 = f \<and> (pev = None \<longleftrightarrow> closest f \<noteq> [])"
  by (auto simp: isQueryDone_def split: if_splits)

lemma cancelAll_failed_map:
  assumes "basicInv str f" and "(k, n) \<in> set (todo f) \<union> set (waiting f)"
  shows "\<exists>n'. map_of (failed (cancelAll str f)) (str n) = Some (n', Errorf ''cancelled'')
              \<and> str n' = str n"
proof -
  from assms(1) have kt: "keyed str (todo f)" and kw: "keyed str (waiting f)"
    and dt: "distinct (map fst (todo f))" and dw: "distinct (map fst (waiting f))"
    by (auto simp: basicInv_def)
  from assms(2) kt kw have k: "k = str n" by (auto simp: keyed_def)
  let ?fl1 = "snd (cancelRange str (todo f) (todo f) (failed f))"
  have m2: "map_of (failed (cancelAll str f)) k =
      (case map_of (waiting f) k of Some n \<Rightarrow> Some (n, Errorf ''cancelled'')
       | None \<Rightarrow> map_of ?fl1 k)"
    unfolding cancelAll_failed by (rule cancelRange_snd_map [OF kw dw]) simp
  have m1: "map_of ?fl1 k =
      (case map_of (todo f) k of Some n \<Rightarrow> Some (n, Errorf ''cancelled'')
       | None \<Rightarrow> map_of (failed f) k)"
    by (rule cancelRange_snd_map [OF kt dt]) simp
  show ?thesis
  proof (cases "map_of (waiting f) k")
    case (Some n')
    then have "(k, n') \<in> set (waiting f)" by (rule map_of_SomeD)
    with kw have "k = str n'" by (auto simp: keyed_def)
    with Some m2 k show ?thesis by auto
  next
    case None
    then have "k \<notin> fst ` set (waiting f)" by (simp add: map_of_eq_None_iff)
    with assms(2) have "(k, n) \<in> set (todo f)" by force
    with dt have "map_of (todo f) k = Some n" by simp
    with None m1 m2 k show ?thesis by simp
  qed
qed

text \<open>
  C5. When a FollowUp broadcast receives a Stop event, every node still in the todo
  set and every node in the waiting set is moved to the failed map with the error
  \<open>cancelled\<close>, and both sets are left empty. This holds in every state \<open>f\<close> that a
  run from \<^verbatim>\<open>NewFollowUp\<close> reaches, for every pool and every order of iteration.
  Once the query phase is over (\<open>closest f \<noteq> []\<close>) the call does not panic and
  returns Finished; before that both sets are empty, and the only panic is the
  pool's unexpected state.
\<close>

theorem Stop_cancels_todo_and_waiting:
  assumes "runFollowUp str adv (NewFollowUp qid mf pl sd target) evs = Inr (sts, f)"
  shows "(closest f \<noteq> [] \<longrightarrow>
            (\<exists>f'. Advance str adv i f EventBroadcastStop
                    = Inr (StateBroadcastFinished (queryID f) (closest f) (failed f'), f')))
       \<and> (\<forall>st f'. Advance str adv i f EventBroadcastStop = Inr (st, f') \<longrightarrow>
            todo f' = [] \<and> waiting f' = []
            \<and> (\<forall>(k, n) \<in> set (todo f) \<union> set (waiting f).
                  \<exists>n'. map_of (failed f') (str n) = Some (n', Errorf ''cancelled'')
                       \<and> str n' = str n))"
proof -
  have b: "basicInv str f"
    by (rule basicInv_runFollowUp [OF basicInv_NewFollowUp assms])
  then have kt: "keyed str (todo f)" and kw: "keyed str (waiting f)"
    by (auto simp: basicInv_def)
  have fin: "Advance str adv i f EventBroadcastStop
      = Inr (StateBroadcastFinished (queryID f) (closest f) (failed (cancelAll str f)),
             cancelAll str f)" if "closest f \<noteq> []"
    using that cancelAll_empty [OF kt kw]
    by (simp add: Advance_def isQueryDone_def advanceStore_def cancelAll_fields)
  have post: "todo f' = [] \<and> waiting f' = []
            \<and> (\<forall>(k, n) \<in> set (todo f) \<union> set (waiting f).
                  \<exists>n'. map_of (failed f') (str n) = Some (n', Errorf ''cancelled'')
                       \<and> str n' = str n)"
    if a: "Advance str adv i f EventBroadcastStop = Inr (st, f')" for st f'
  proof (cases "closest f = []")
    case False
    with fin a have "f' = cancelAll str f" by simp
    with cancelAll_empty [OF kt kw] cancelAll_failed_map [OF b] show ?thesis by blast
  next
    case True
    with b have e: "todo f = []" "waiting f = []" by (auto simp: basicInv_def)
    from basicInv_Advance [OF b a] have b': "basicInv str f'" .
    from a have "todo f' = [] \<and> waiting f' = []"
    proof (cases rule: Advance_cases)
      case (pool pe f1)
      from handleEvent_Stop [OF pool(1)] have "f1 = f" by simp
      with fadvancePool_fields(4,7) [OF pool(2)] e show ?thesis by auto
    next
      case (store pev f1 f2)
      from b store(1) have b1: "basicInv str f1" by (rule basicInv_handleEvent)
      from store(2) b1 have "basicInv str f2"
        by (cases pev) (auto intro: basicInv_fadvancePool)
      then have "todo (cancelAll str f2) = []" "waiting (cancelAll str f2) = []"
        by (auto simp: basicInv_def cancelAll_empty)
      with advanceStore_cases [OF store(3)] show ?thesis by auto
    qed
    with e show ?thesis by simp
  qed
  from fin post show ?thesis by blast
qed

text \<open>
  C6. If the closest-nodes query of a FollowUp broadcast finishes with zero closest
  nodes (the event is one that \<^verbatim>\<open>handleEvent\<close> passes to the pool, and the pool answers
  \<^verbatim>\<open>StatePoolQueryFinished\<close> with no nodes), \<^verbatim>\<open>Advance\<close> returns at once a Finished state
  with an empty contacted list and an empty errors map.
\<close>

theorem zero_closest_finishes:
  assumes "handleEvent str f ev = Inr (Some pe, f1)"
    and "adv (fpool f1) pe = (StatePoolQueryFinished q stats [], pl)"
  shows "Advance str adv i f ev
           = Inr (StateBroadcastFinished (queryID f) [] [], f1\<lparr> fpool := pl \<rparr>)"
  using assms handleEvent_fields(3) [OF assms(1)]
  by (simp add: Advance_def fadvancePool_def)

text \<open>
  C2, amended. \<^verbatim>\<open>Advance\<close> returns a Finished state either from the pool step, when
  the pool reports the query finished with no closest node or timed out, and then
  with an empty contacted list and no errors; or at its end, and then only when the
  todo and waiting sets are both empty and the event is Stop or the closest list is
  non-empty, carrying the full closest list as contacted and the failed map as
  errors. Finished is not emitted once only: in a started broadcast with todo and
  waiting empty and closest non-empty, every Poll that the pool answers with Idle
  returns Finished again.
\<close>

theorem Finished_emission:
  "(Advance str adv i f ev = Inr (StateBroadcastFinished q c e, f') \<longrightarrow>
      q = queryID f \<and>
      ((c = [] \<and> e = [] \<and>
        (\<exists>pe f1 pl. handleEvent str f ev = Inr (Some pe, f1) \<and>
           ((\<exists>q' s. adv (fpool f1) pe = (StatePoolQueryFinished q' s [], pl))
            \<or> (\<exists>q'. adv (fpool f1) pe = (StatePoolQueryTimeout q', pl)))))
       \<or> (todo f' = [] \<and> waiting f' = [] \<and> (ev = EventBroadcastStop \<or> closest f' \<noteq> [])
           \<and> c = closest f' \<and> e = failed f')))
   \<and> (todo f = [] \<and> waiting f = [] \<and> closest f \<noteq> [] \<and> started f
        \<and> adv (fpool f) EventPoolPoll = (StatePoolIdle, pl) \<longrightarrow>
      Advance str adv i f EventBroadcastPoll
        = Inr (StateBroadcastFinished (queryID f) (closest f) (failed f), f\<lparr> fpool := pl \<rparr>))"
proof (rule conjI; rule impI)
  assume a: "Advance str adv i f ev = Inr (StateBroadcastFinished q c e, f')"
  then show "q = queryID f \<and>
      ((c = [] \<and> e = [] \<and>
        (\<exists>pe f1 pl. handleEvent str f ev = Inr (Some pe, f1) \<and>
           ((\<exists>q' s. adv (fpool f1) pe = (StatePoolQueryFinished q' s [], pl))
            \<or> (\<exists>q'. adv (fpool f1) pe = (StatePoolQueryTimeout q', pl)))))
       \<or> (todo f' = [] \<and> waiting f' = [] \<and> (ev = EventBroadcastStop \<or> closest f' \<noteq> [])
           \<and> c = closest f' \<and> e = failed f'))"
  proof (cases rule: Advance_cases)
    case (pool pe f1)
    from pool(2) have "q = queryID f1 \<and> c = [] \<and> e = [] \<and>
        (\<exists>pl. (\<exists>q' s. adv (fpool f1) pe = (StatePoolQueryFinished q' s [], pl))
            \<or> (\<exists>q'. adv (fpool f1) pe = (StatePoolQueryTimeout q', pl)))"
      by (auto simp: fadvancePool_def Let_def split: prod.splits PoolState.splits if_splits)
    with pool(1) handleEvent_fields(3) [OF pool(1)] show ?thesis by auto
  next
    case (store pev f1 f2)
    have q2: "queryID f2 = queryID f"
      using store(2) handleEvent_fields(3) [OF store(1)]
      by (cases pev) (auto dest: fadvancePool_fields(1))
    from advanceStore_cases [OF store(3)] q2 show ?thesis
      by (auto simp: cancelAll_fields split: if_splits)
  qed
next
  assume "todo f = [] \<and> waiting f = [] \<and> closest f \<noteq> [] \<and> started f
        \<and> adv (fpool f) EventPoolPoll = (StatePoolIdle, pl)"
  then show "Advance str adv i f EventBroadcastPoll
        = Inr (StateBroadcastFinished (queryID f) (closest f) (failed f), f\<lparr> fpool := pl \<rparr>)"
    by (simp add: Advance_def fadvancePool_def advanceStore_def)
qed

text \<open>Every part of a well-formed step keeps the full invariant.\<close>

lemma fullInv_NewFollowUp: "fullInv str (NewFollowUp qid mf pl sd target) []"
  by (simp add: fullInv_def basicInv_def disjointSets_def unionSets_def NewFollowUp_def)

lemma fullInv_handleEvent:
  assumes inv: "fullInv str f D" and h: "handleEvent str f ev = Inr (pev, f1)"
    and wf: "wfStep str adv f ev"
  shows "fullInv str f1 D"
proof -
  from inv h have b1: "basicInv str f1" by (auto simp: fullInv_def intro: basicInv_handleEvent)
  consider (same) "todo f1 = todo f" "waiting f1 = waiting f" "success f1 = success f"
      "failed f1 = failed f" "closest f1 = closest f"
    | (succ) n where "ev = EventBroadcastStoreRecordSuccess n"
    | (fail) n e where "ev = EventBroadcastStoreRecordFailure n e"
    using h by (cases ev) (auto split: if_splits)
  then show ?thesis
  proof cases
    case same
    with inv b1 show ?thesis by (simp add: fullInv_def disjointSets_def unionSets_def)
  next
    case (succ n)
    with wf have k: "str n \<in> keysOf (waiting f)" by (simp add: wfStep_def)
    from succ h have f1: "f1 = f\<lparr> waiting := AList.delete (str n) (waiting f),
                    success := AList.update (str n) n (success f) \<rparr>" by simp
    from inv have d: "disjointSets f" and u: "unionSets f = str ` set (closest f)"
      and g: "str ` set D \<subseteq> keysOf (waiting f) \<union> keysOf (success f) \<union> keysOf (failed f)"
      by (simp_all add: fullInv_def)
    have "disjointSets f1" using d k unfolding disjointSets_def f1 by auto
    moreover have "unionSets f1 = str ` set (closest f1)"
      using u k unfolding unionSets_def f1 by auto
    moreover have "str ` set D \<subseteq> keysOf (waiting f1) \<union> keysOf (success f1) \<union> keysOf (failed f1)"
      using g unfolding f1 by auto
    ultimately show ?thesis using inv b1
      by (simp add: fullInv_def f1 AList.distinct_update)
  next
    case (fail n e)
    with wf have k: "str n \<in> keysOf (waiting f)" by (simp add: wfStep_def)
    from fail h have f1: "f1 = f\<lparr> waiting := AList.delete (str n) (waiting f),
                    failed := AList.update (str n) (n, e) (failed f) \<rparr>" by simp
    from inv have d: "disjointSets f" and u: "unionSets f = str ` set (closest f)"
      and g: "str ` set D \<subseteq> keysOf (waiting f) \<union> keysOf (success f) \<union> keysOf (failed f)"
      by (simp_all add: fullInv_def)
    have "disjointSets f1" using d k unfolding disjointSets_def f1 by auto
    moreover have "unionSets f1 = str ` set (closest f1)"
      using u k unfolding unionSets_def f1 by auto
    moreover have "str ` set D \<subseteq> keysOf (waiting f1) \<union> keysOf (success f1) \<union> keysOf (failed f1)"
      using g unfolding f1 by auto
    ultimately show ?thesis using inv b1
      by (simp add: fullInv_def f1 AList.distinct_update)
  qed
qed

lemma fullInv_fadvancePool:
  assumes inv: "fullInv str f D" and a: "fadvancePool str adv f pe = Inr (r, f2)"
    and wf: "\<And>q s cs. fst (adv (fpool f) pe) = StatePoolQueryFinished q s cs \<Longrightarrow>
               cs = [] \<or> (closest f = [] \<and> distinct (map str cs))"
  shows "fullInv str f2 D"
proof -
  from inv a have b2: "basicInv str f2" by (auto simp: fullInv_def intro: basicInv_fadvancePool)
  note h = fadvancePool_fields [OF a]
  from h(7) show ?thesis
  proof
    assume "closest f2 = closest f \<and> todo f2 = todo f"
    with inv b2 h(4-6) show ?thesis by (simp add: fullInv_def disjointSets_def unionSets_def)
  next
    assume "\<exists>q s cs. fst (adv (fpool f) pe) = StatePoolQueryFinished q s cs \<and> cs \<noteq> [] \<and> r = None
          \<and> closest f2 = cs \<and> todo f2 = fillTodo str (todo f) cs"
    then obtain q s cs where st: "fst (adv (fpool f) pe) = StatePoolQueryFinished q s cs"
      and cs: "cs \<noteq> []" "closest f2 = cs" "todo f2 = fillTodo str (todo f) cs"
      by blast
    from wf [OF st] cs(1) have c0: "closest f = []" and dc: "distinct (map str cs)" by auto
    from inv c0 have "unionSets f = {}" and D: "D = []" by (auto simp: fullInv_def)
    then have e: "todo f = []" "waiting f = []" "success f = []" "failed f = []"
      by (auto simp: unionSets_def)
    have "\<forall>(k, n) \<in> set (todo f2). n \<in> set (closest f2)"
      using fillTodo_props(4) [of str "[]" cs] cs e by auto
    with b2 e h(4-6) cs dc D show ?thesis
      by (simp add: fullInv_def disjointSets_def unionSets_def fillTodo_props)
  qed
qed

lemma fullInv_cancelAll:
  assumes inv: "fullInv str f D"
  shows "fullInv str (cancelAll str f) D"
proof -
  from inv have b: "basicInv str f" by (simp add: fullInv_def)
  then have kt: "keyed str (todo f)" and kw: "keyed str (waiting f)"
    and dt: "distinct (map fst (todo f))" and dw: "distinct (map fst (waiting f))"
    by (auto simp: basicInv_def)
  let ?fl1 = "snd (cancelRange str (todo f) (todo f) (failed f))"
  have k1: "keysOf ?fl1 = keysOf (failed f) \<union> keysOf (todo f)"
    by (rule cancelRange_snd_keys [OF kt dt]) simp
  have kf: "keysOf (failed (cancelAll str f))
      = keysOf (failed f) \<union> keysOf (todo f) \<union> keysOf (waiting f)"
    unfolding cancelAll_failed using cancelRange_snd_keys [OF kw dw, of "waiting f" ?fl1] k1
    by simp
  from inv have "distinct (map fst (failed f))" by (simp add: fullInv_def)
  then have df: "distinct (map fst (failed (cancelAll str f)))"
    unfolding cancelAll_failed by (intro cancelRange_snd_distinct)
  note e = cancelAll_empty [OF kt kw]
  from inv have d: "disjointSets f" and u: "unionSets f = str ` set (closest f)"
    and g: "str ` set D \<subseteq> keysOf (waiting f) \<union> keysOf (success f) \<union> keysOf (failed f)"
    by (simp_all add: fullInv_def)
  have "disjointSets (cancelAll str f)"
    using d unfolding disjointSets_def e kf cancelAll_fields by auto
  moreover have "unionSets (cancelAll str f) = str ` set (closest f)"
    using u unfolding unionSets_def e kf cancelAll_fields by auto
  moreover have "str ` set D \<subseteq> keysOf (waiting (cancelAll str f))
       \<union> keysOf (success (cancelAll str f)) \<union> keysOf (failed (cancelAll str f))"
    using g unfolding e kf cancelAll_fields by auto
  ultimately show ?thesis
    using inv basicInv_cancelAll [OF b] df e
    by (simp add: fullInv_def cancelAll_fields)
qed

lemma fullInv_advanceStore:
  assumes inv: "fullInv str f D" and a: "advanceStore i b f = (st, f')"
  shows "fullInv str f' (D @ storedNodes [st])"
  using advanceStore_cases [OF a]
proof (elim disjE exE conjE)
  fix k n assume kn: "(k, n) \<in> set (todo f)"
    and st: "st = StateBroadcastStoreRecord (queryID f) n (Target f) (msgFunc f (Target f))"
    and f': "f' = f\<lparr> todo := AList.delete k (todo f), waiting := AList.update k n (waiting f) \<rparr>"
  from inv a have b': "basicInv str f'" by (auto simp: fullInv_def intro: basicInv_advanceStore)
  from inv kn have ks: "k = str n" and nc: "n \<in> set (closest f)"
    by (auto simp: fullInv_def basicInv_def keyed_def)
  from kn have kt: "k \<in> keysOf (todo f)" by (force simp: keysOf_def)
  from inv have d: "disjointSets f" and u: "unionSets f = str ` set (closest f)"
    and g: "str ` set D \<subseteq> keysOf (waiting f) \<union> keysOf (success f) \<union> keysOf (failed f)"
    and dD: "distinct (map str D)" and sD: "set D \<subseteq> set (closest f)"
    and tc: "\<forall>(k, n) \<in> set (todo f). n \<in> set (closest f)"
    by (simp_all add: fullInv_def)
  have "disjointSets f'" using d kt unfolding disjointSets_def f' by auto
  moreover have "unionSets f' = str ` set (closest f')"
    using u kt unfolding unionSets_def f' by auto
  moreover have "str ` set (D @ [n]) \<subseteq> keysOf (waiting f') \<union> keysOf (success f') \<union> keysOf (failed f')"
    using g ks unfolding f' by auto
  moreover have "str n \<notin> str ` set D"
    using g d kt ks unfolding disjointSets_def by blast
  then have "distinct (map str (D @ [n]))" using dD by simp
  moreover have "\<forall>(k, n) \<in> set (todo f'). n \<in> set (closest f')"
    using tc unfolding f' by (auto simp: set_delete)
  ultimately show ?thesis using inv b' nc sD st
    by (simp add: fullInv_def f')
next
  assume "f' = f" and "if waiting f \<noteq> [] then st = StateBroadcastWaiting []
     else if b \<or> closest f \<noteq> [] then st = StateBroadcastFinished (queryID f) (closest f) (failed f)
     else st = StateBroadcastIdle"
  then have "storedNodes [st] = []" by (auto split: if_splits)
  with \<open>f' = f\<close> inv show ?thesis by simp
qed

lemma storedNodes_Cons: "storedNodes (st # sts) = storedNodes [st] @ storedNodes sts"
  by (cases st) simp_all

lemma fadvancePool_no_store:
  "fadvancePool str adv f pe = Inr (Some st, f') \<Longrightarrow> storedNodes [st] = []"
  by (auto simp: fadvancePool_def Let_def split: prod.splits PoolState.splits if_splits)

lemma wfStep_pool:
  assumes "wfStep str adv f ev" and "handleEvent str f ev = Inr (Some pe, f1)"
    and "fst (adv (fpool f1) pe) = StatePoolQueryFinished q s cs"
  shows "cs = [] \<or> (closest f1 = [] \<and> distinct (map str cs))"
  using assms by (cases ev) (auto simp: wfStep_def split: if_splits)

lemma fullInv_Advance:
  assumes inv: "fullInv str f D" and wf: "wfStep str adv f ev"
    and a: "Advance str adv i f ev = Inr (st, f')"
  shows "fullInv str f' (D @ storedNodes [st])"
  using a
proof (cases rule: Advance_cases)
  case (pool pe f1)
  from fullInv_handleEvent [OF inv pool(1) wf] have i1: "fullInv str f1 D" .
  from fullInv_fadvancePool [OF i1 pool(2)] wfStep_pool [OF wf pool(1)]
  have "fullInv str f' D" by blast
  with fadvancePool_no_store [OF pool(2)] show ?thesis by simp
next
  case (store pev f1 f2)
  from fullInv_handleEvent [OF inv store(1) wf] have i1: "fullInv str f1 D" .
  have i2: "fullInv str f2 D"
  proof (cases pev)
    case None
    with store(2) i1 show ?thesis by simp
  next
    case (Some pe)
    with store(2) have p: "fadvancePool str adv f1 pe = Inr (None, f2)" by simp
    from store(1) Some have h: "handleEvent str f ev = Inr (Some pe, f1)" by simp
    from fullInv_fadvancePool [OF i1 p] wfStep_pool [OF wf h] show ?thesis by blast
  qed
  then have "fullInv str (if ev = EventBroadcastStop then cancelAll str f2 else f2) D"
    by (simp add: fullInv_cancelAll)
  from fullInv_advanceStore [OF this store(3)] show ?thesis .
qed

lemma fullInv_runFollowUp:
  "fullInv str f D \<Longrightarrow> wfRun str adv f evs \<Longrightarrow> runFollowUp str adv f evs = Inr (sts, f') \<Longrightarrow>
   fullInv str f' (D @ storedNodes sts)"
proof (induction evs arbitrary: f D sts)
  case Nil
  then show ?case by simp
next
  case (Cons e evs)
  obtain i ev where e: "e = (i, ev)" by (cases e)
  with Cons.prems(3) obtain st f1 sts1 where
    a: "Advance str adv i f ev = Inr (st, f1)" and r: "runFollowUp str adv f1 evs = Inr (sts1, f')"
    and sts: "sts = st # sts1"
    by (auto split: sum.splits)
  from Cons.prems(2) e a have wf: "wfStep str adv f ev" and wr: "wfRun str adv f1 evs" by auto
  from Cons.IH [OF fullInv_Advance [OF Cons.prems(1) wf a] wr r] sts
  show ?case by (simp add: storedNodes_Cons [of st sts1])
qed

lemma length_keysOf: "distinct (map fst m) \<Longrightarrow> card (keysOf m) = length m"
  using distinct_card [of "map fst m"] by (simp add: keysOf_def)

lemma fullInv_counts:
  assumes inv: "fullInv str f D" and e: "todo f = []" "waiting f = []"
  shows "length (success f) + length (failed f) = length (closest f)"
proof -
  from inv have ds: "distinct (map fst (success f))" and df: "distinct (map fst (failed f))"
    and dj: "keysOf (success f) \<inter> keysOf (failed f) = {}"
    and u: "unionSets f = str ` set (closest f)" and dc: "distinct (map str (closest f))"
    by (simp_all add: fullInv_def disjointSets_def)
  have fin: "finite (keysOf (success f))" "finite (keysOf (failed f))"
    by (simp_all add: keysOf_def)
  from u e have "keysOf (success f) \<union> keysOf (failed f) = set (map str (closest f))"
    by (simp add: unionSets_def)
  then have "card (keysOf (success f) \<union> keysOf (failed f)) = length (closest f)"
    using distinct_card [OF dc] by simp
  with card_Un_disjoint [OF fin dj] length_keysOf [OF ds] length_keysOf [OF df]
  show ?thesis by simp
qed

text \<open>
  C3, amended. In every state reached from \<^verbatim>\<open>NewFollowUp\<close> by a well-formed run (store
  results only for waiting nodes; the pool reports closest nodes only once, with
  distinct strings), the sets todo, waiting, success and failed are pairwise
  disjoint and their union is the set of closest nodes; when todo and waiting are
  empty, \<open>|success| + |failed| = |closest|\<close>; and the StoreRecord states emitted in
  the run name distinct nodes, all of them closest nodes.
\<close>

theorem well_formed_run_partitions_closest:
  assumes "wfRun str adv (NewFollowUp qid mf pl sd target) evs"
    and "runFollowUp str adv (NewFollowUp qid mf pl sd target) evs = Inr (sts, f)"
  shows "disjointSets f
       \<and> unionSets f = str ` set (closest f)
       \<and> (todo f = [] \<and> waiting f = [] \<longrightarrow>
            length (success f) + length (failed f) = length (closest f))
       \<and> distinct (map str (storedNodes sts))
       \<and> set (storedNodes sts) \<subseteq> set (closest f)"
proof -
  from fullInv_runFollowUp [OF fullInv_NewFollowUp assms]
  have inv: "fullInv str f (storedNodes sts)" by simp
  with fullInv_counts [OF inv] show ?thesis by (simp add: fullInv_def)
qed

lemma run_events0:
  "runFollowUp (\<lambda>n. n) twoPool followUp0 events0
   = Inr ([StateBroadcastStoreRecord ''b1'' ''X'' 9 10, StateBroadcastStoreRecord ''b1'' ''Y'' 9 10,
           StateBroadcastWaiting [],
           StateBroadcastFinished ''b1'' [''X'', ''Y''] [(''Y'', ''Y'', Errorf ''refused'')],
           StateBroadcastFinished ''b1'' [''X'', ''Y''] [(''Y'', ''Y'', Errorf ''refused'')]],
          followUp1)"
  by (simp add: events0_def followUp1_def followUp0_def NewFollowUp_def twoPool_def Advance_def
      fadvancePool_def advanceStore_def fillTodo_def isQueryDone_def)

lemma wfRun_events0: "wfRun (\<lambda>n. n) twoPool followUp0 events0"
  by (simp add: events0_def followUp0_def NewFollowUp_def twoPool_def Advance_def
      fadvancePool_def advanceStore_def fillTodo_def isQueryDone_def wfStep_def keysOf_def)

text \<open>A well-formed run: two nodes found, one store succeeds, one fails.\<close>

theorem well_formed_run_partitions_closest_witness:
  "wfRun (\<lambda>n. n) twoPool followUp0 events0
   \<and> runFollowUp (\<lambda>n. n) twoPool followUp0 events0
       = Inr ([StateBroadcastStoreRecord ''b1'' ''X'' 9 10, StateBroadcastStoreRecord ''b1'' ''Y'' 9 10,
           StateBroadcastWaiting [],
           StateBroadcastFinished ''b1'' [''X'', ''Y''] [(''Y'', ''Y'', Errorf ''refused'')],
           StateBroadcastFinished ''b1'' [''X'', ''Y''] [(''Y'', ''Y'', Errorf ''refused'')]],
          followUp1)
   \<and> disjointSets followUp1
   \<and> unionSets followUp1 = {''X'', ''Y''}
   \<and> length (success followUp1) + length (failed followUp1) = length (closest followUp1)"
  using well_formed_run_partitions_closest [of "\<lambda>n. n" twoPool "''b1''" "\<lambda>k. k + 1" 0 "[''S'']" 9
      events0 _ followUp1]
    wfRun_events0 run_events0
  by (simp add: followUp0_def) (simp add: followUp1_def followUp0_def NewFollowUp_def)

text \<open>
  C3 as stated fails, since it speaks of any sequence of events. Stop cancels the
  waiting node X, and the success of X's store arrives afterwards: X is in success
  and in failed, and the two sets count three nodes for two closest ones.
\<close>

theorem sets_disjoint_counterexample:
  "\<exists>f. map_sum id snd (runFollowUp (\<lambda>n. n) twoPool followUp0
          [(0, EventBroadcastPoll), (0, EventBroadcastStop),
           (0, EventBroadcastStoreRecordSuccess ''X'')]) = Inr f
      \<and> todo f = [] \<and> waiting f = [] \<and> closest f = [''X'', ''Y'']
      \<and> success f = [(''X'', ''X'')]
      \<and> failed f = [(''Y'', ''Y'', Errorf ''cancelled''), (''X'', ''X'', Errorf ''cancelled'')]
      \<and> keysOf (success f) \<inter> keysOf (failed f) = {''X''}
      \<and> \<not> disjointSets f
      \<and> length (success f) + length (failed f) \<noteq> length (closest f)"
  by (simp add: followUp0_def NewFollowUp_def twoPool_def Advance_def
      fadvancePool_def advanceStore_def fillTodo_def isQueryDone_def cancelAll_def
      disjointSets_def keysOf_def)

lemma run_to_followUp2:
  "runFollowUp (\<lambda>n. n) twoPool followUp0 [(0, EventBroadcastPoll)]
     = Inr ([StateBroadcastStoreRecord ''b1'' ''X'' 9 10], followUp2)"
  by (simp add: followUp2_def followUp0_def NewFollowUp_def twoPool_def Advance_def
      fadvancePool_def advanceStore_def fillTodo_def isQueryDone_def)

text \<open>After one Poll, Y is still to do and X is waiting; Stop cancels both.\<close>

theorem Stop_cancels_todo_and_waiting_witness:
  "runFollowUp (\<lambda>n. n) twoPool followUp0 [(0, EventBroadcastPoll)]
     = Inr ([StateBroadcastStoreRecord ''b1'' ''X'' 9 10], followUp2)
   \<and> todo followUp2 = [(''Y'', ''Y'')] \<and> waiting followUp2 = [(''X'', ''X'')]
   \<and> (\<exists>f'. Advance (\<lambda>n. n) twoPool 0 followUp2 EventBroadcastStop
              = Inr (StateBroadcastFinished ''b1'' [''X'', ''Y''] (failed f'), f')
          \<and> todo f' = [] \<and> waiting f' = []
          \<and> (\<exists>n'. map_of (failed f') ''X'' = Some (n', Errorf ''cancelled''))
          \<and> (\<exists>n'. map_of (failed f') ''Y'' = Some (n', Errorf ''cancelled'')))"
proof -
  note t = Stop_cancels_todo_and_waiting [OF run_to_followUp2 [unfolded followUp0_def],
      of 0]
  have c: "closest followUp2 = [''X'', ''Y'']" "queryID followUp2 = ''b1''"
    "todo followUp2 = [(''Y'', ''Y'')]" "waiting followUp2 = [(''X'', ''X'')]"
    by (simp_all add: followUp2_def followUp0_def NewFollowUp_def)
  from t c obtain f' where a: "Advance (\<lambda>n. n) twoPool 0 followUp2 EventBroadcastStop
              = Inr (StateBroadcastFinished ''b1'' [''X'', ''Y''] (failed f'), f')"
    by auto
  with t c have "todo f' = [] \<and> waiting f' = []
          \<and> (\<exists>n'. map_of (failed f') ''X'' = Some (n', Errorf ''cancelled''))
          \<and> (\<exists>n'. map_of (failed f') ''Y'' = Some (n', Errorf ''cancelled''))"
    by fastforce
  with a c run_to_followUp2 show ?thesis by blast
qed

text \<open>The first Poll of a new broadcast, with a pool that finds no node.\<close>

theorem zero_closest_finishes_witness:
  "handleEvent (\<lambda>n. n) followUp0 EventBroadcastPoll
     = Inr (Some (EventPoolAddFindCloserQuery ''b1'' 9 [''S'']), followUp0\<lparr> started := True \<rparr>)
   \<and> emptyPool (fpool (followUp0\<lparr> started := True \<rparr>)) (EventPoolAddFindCloserQuery ''b1'' 9 [''S''])
     = (StatePoolQueryFinished ''b1'' 0 [], 1)
   \<and> Advance (\<lambda>n. n) emptyPool 0 followUp0 EventBroadcastPoll
     = Inr (StateBroadcastFinished ''b1'' [] [], followUp0\<lparr> started := True, fpool := 1 \<rparr>)"
proof -
  have h: "handleEvent (\<lambda>n. n) followUp0 EventBroadcastPoll
     = Inr (Some (EventPoolAddFindCloserQuery ''b1'' 9 [''S'']), followUp0\<lparr> started := True \<rparr>)"
    by (simp add: followUp0_def NewFollowUp_def)
  have p: "emptyPool (fpool (followUp0\<lparr> started := True \<rparr>)) (EventPoolAddFindCloserQuery ''b1'' 9 [''S''])
     = (StatePoolQueryFinished ''b1'' 0 [], 1)"
    by (simp add: followUp0_def NewFollowUp_def emptyPool_def)
  from zero_closest_finishes [of "\<lambda>n. n" followUp0 EventBroadcastPoll
      "EventPoolAddFindCloserQuery ''b1'' 9 [''S'']" "followUp0\<lparr> started := True \<rparr>"
      emptyPool "''b1''" 0 1 0] h p
  show ?thesis
    by (simp add: followUp0_def NewFollowUp_def)
qed

text \<open>The broadcast that has stored at X and failed at Y, polled once more.\<close>

theorem Finished_emission_witness:
  "todo followUp1 = [] \<and> waiting followUp1 = [] \<and> closest followUp1 = [''X'', ''Y'']
   \<and> started followUp1 \<and> twoPool (fpool followUp1) EventPoolPoll = (StatePoolIdle, 4)
   \<and> Advance (\<lambda>n. n) twoPool 0 followUp1 EventBroadcastPoll
       = Inr (StateBroadcastFinished ''b1'' [''X'', ''Y''] [(''Y'', ''Y'', Errorf ''refused'')],
              followUp1\<lparr> fpool := 4 \<rparr>)"
proof -
  have c: "todo followUp1 = [] \<and> waiting followUp1 = [] \<and> closest followUp1 = [''X'', ''Y'']
   \<and> started followUp1 \<and> twoPool (fpool followUp1) EventPoolPoll = (StatePoolIdle, 4)"
    "queryID followUp1 = ''b1''" "failed followUp1 = [(''Y'', ''Y'', Errorf ''refused'')]"
    by (simp_all add: followUp1_def followUp0_def NewFollowUp_def twoPool_def)
  from Finished_emission [of "\<lambda>n. n" twoPool 0 followUp1 EventBroadcastPoll "''b1''"
      "[''X'', ''Y'']" "[(''Y'', ''Y'', Errorf ''refused'')]" "followUp1\<lparr> fpool := 4 \<rparr>" 4] c
  show ?thesis by simp
qed

text \<open>
  C2 as stated fails. After both store results have arrived the broadcast returns
  Finished, and each of the two Polls that follow returns Finished again; and a Stop
  sent to a new broadcast returns Finished at the end of \<^verbatim>\<open>Advance\<close> while the closest
  list is empty.
\<close>

theorem Finished_once_counterexample:
  "map_sum id fst (runFollowUp (\<lambda>n. n) twoPool followUp0
      [(0, EventBroadcastPoll), (0, EventBroadcastPoll),
       (0, EventBroadcastStoreRecordSuccess ''X''), (0, EventBroadcastStoreRecordSuccess ''Y''),
       (0, EventBroadcastPoll), (0, EventBroadcastPoll)])
   = Inr [StateBroadcastStoreRecord ''b1'' ''X'' 9 10, StateBroadcastStoreRecord ''b1'' ''Y'' 9 10,
          StateBroadcastWaiting [],
          StateBroadcastFinished ''b1'' [''X'', ''Y''] [],
          StateBroadcastFinished ''b1'' [''X'', ''Y''] [],
          StateBroadcastFinished ''b1'' [''X'', ''Y''] []]
   \<and> closest followUp0 = []
   \<and> map_sum id fst (runFollowUp (\<lambda>n. n) twoPool followUp0 [(0, EventBroadcastStop)])
       = Inr [StateBroadcastFinished ''b1'' [] []]"
  by (simp add: followUp0_def NewFollowUp_def twoPool_def Advance_def fadvancePool_def
      advanceStore_def fillTodo_def isQueryDone_def cancelAll_def)

end
